theory Spec2Isabelle
  imports Main "HOL-Library.Word"
begin

unbundle bit_operations_syntax

section \<open>Machine types and platform constants\<close>

text \<open>
  The model fixes the LP64 data model of 64-bit Linux: \<open>loff_t\<close>, \<open>size_t\<close>,
  \<open>uint64_t\<close>, \<open>unsigned long long\<close> and \<open>xfs_daddr_t\<close> are 64-bit words
  (read with \<open>sint\<close> where the C type is signed), \<open>unsigned int\<close> is a 32-bit word.
\<close>

type_synonym byte = "8 word"
type_synonym u32 = "32 word"
type_synonym u64 = "64 word"
type_synonym loff_t = "64 word"
type_synonym xfs_daddr_t = "64 word"

datatype errno =
  EBADF | EINVAL | EFBIG | E2BIG | ENOMEM | ENXIO | EMFILE | EOVERFLOW | EFSCORRUPTED | EFAULT

text \<open>
  \<open>BBSHIFT\<close> and \<open>BBTOB\<close> are macros of the XFS headers (xfs_fs.h), which define the
  "basic block" of 512 bytes in which every \<open>xfs_daddr_t\<close> counts:
  \<open>#define BBSHIFT 9\<close> and \<open>#define BBTOB(bbs) ((bbs) << BBSHIFT)\<close>.
\<close>

definition BBSHIFT :: nat where
  "BBSHIFT = 9"

definition BBTOB :: "'a::len word \<Rightarrow> 'a word" where
  "BBTOB bbs = push_bit BBSHIFT bbs"

text \<open>
  \<open>PAGE_SIZE\<close> is the system page size. \<open>xmbuf_libinit\<close> reads it from
  \<open>sysconf(_SC_PAGESIZE)\<close> and goes with 4096 when that is not a power of two; the
  model takes 4096, so \<open>XMBUF_BLOCKSHIFT\<close> (the page shift) is 12.
\<close>

definition PAGE_SIZE :: nat where
  "PAGE_SIZE = 4096"

definition XMBUF_BLOCKSIZE :: nat where
  "XMBUF_BLOCKSIZE = PAGE_SIZE"

definition XMBUF_BLOCKSHIFT :: nat where
  "XMBUF_BLOCKSHIFT = 12"

definition INT_MAX :: nat where
  "INT_MAX = 2 ^ 31 - 1"

definition LLONG_MAX :: nat where
  "LLONG_MAX = 2 ^ 63 - 1"

definition UINT_MAX :: nat where
  "UINT_MAX = 2 ^ 32 - 1"

section \<open>The operating system: files in memory\<close>

text \<open>
  The system calls that \<open>xfile.c\<close> and \<open>buf_mem.c\<close> make are not code of the
  library; they are modelled after their manual pages for a memfd (a tmpfs file).
  A file has a size, a content and a set of resident pages. Content outside the size
  reads as zero, whatever \<open>f_bytes\<close> holds there. A write makes the pages it touches
  resident; punching a hole zeroes the range and frees the pages that lie wholly in it.
\<close>

record memfile =
  f_size :: nat
  f_bytes :: "nat \<Rightarrow> byte"
  f_pages :: "nat set"

definition file_byte :: "memfile \<Rightarrow> nat \<Rightarrow> byte" where
  "file_byte f i = (if i < f_size f then f_bytes f i else 0)"

definition file_read :: "memfile \<Rightarrow> nat \<Rightarrow> nat \<Rightarrow> byte list" where
  "file_read f off count = map (f_bytes f) [off ..< min (off + count) (f_size f)]"

definition file_write :: "memfile \<Rightarrow> nat \<Rightarrow> byte list \<Rightarrow> memfile" where
  "file_write f off buf =
     f\<lparr>f_size := max (f_size f) (off + length buf),
       f_bytes := (\<lambda>i. if off \<le> i \<and> i < off + length buf then buf ! (i - off)
                       else file_byte f i),
       f_pages := f_pages f \<union> {off div PAGE_SIZE .. (off + length buf - 1) div PAGE_SIZE}\<rparr>"

definition file_truncate :: "memfile \<Rightarrow> nat \<Rightarrow> memfile" where
  "file_truncate f len =
     f\<lparr>f_size := len,
       f_bytes := (\<lambda>i. if i < len then file_byte f i else 0),
       f_pages := {p \<in> f_pages f. p * PAGE_SIZE < len}\<rparr>"

definition file_punch :: "memfile \<Rightarrow> nat \<Rightarrow> nat \<Rightarrow> memfile" where
  "file_punch f off len =
     f\<lparr>f_bytes := (\<lambda>i. if off \<le> i \<and> i < off + len then 0 else file_byte f i),
       f_pages := {p \<in> f_pages f. \<not> (off \<le> p * PAGE_SIZE \<and> (p + 1) * PAGE_SIZE \<le> off + len)}\<rparr>"




text \<open>
  \<open>struct xfile_fcb\<close>: the descriptor and the reference count. The list node
  \<open>fcb_list\<close> of the struct is modelled by membership in the global list of the
  state. \<open>struct xfile\<close>: a pointer to the control block, the start of the
  partition in the file and the caller's maximum.
\<close>

record xfile_fcb =
  fd :: nat
  refcount :: u32

record xfile =
  fcb :: nat
  partition_pos :: loff_t
  maxbytes :: u64

text \<open>
  A mapping made by \<open>mmap\<close>: the descriptor, the file offset, the length and whether
  it is readable and writable.
\<close>

record vma =
  vm_fd :: nat
  vm_off :: nat
  vm_len :: nat
  vm_rw :: bool

text \<open>
  The state of the process: the open descriptors with their files, the heap of control
  blocks (addresses are never reused), the global \<open>fcb_list\<close>, the mappings, and the
  resources whose exhaustion makes a call fail: the largest file size the kernel
  accepts (\<open>RLIMIT_FSIZE\<close>), the number of descriptors (\<open>RLIMIT_NOFILE\<close>), the number
  of heap objects that can still be allocated, and the number of mappings that can
  still be made.
\<close>

record sys =
  files :: "nat \<rightharpoonup> memfile"
  fcbs :: "nat \<rightharpoonup> xfile_fcb"
  fcb_list :: "nat list"
  vmas :: "nat \<rightharpoonup> vma"
  fsize_limit :: nat
  nofile :: nat
  mem_free :: nat
  heap_next :: nat
  vma_free :: nat
  vma_next :: nat

definition sys_pread :: "sys \<Rightarrow> nat \<Rightarrow> nat \<Rightarrow> loff_t \<Rightarrow> errno + byte list" where
  "sys_pread s d count off =
     (case files s d of
        None \<Rightarrow> Inl EBADF
      | Some f \<Rightarrow>
          if sint off < 0 then Inl EINVAL
          else Inr (file_read f (unat off) count))"

definition sys_pwrite :: "sys \<Rightarrow> nat \<Rightarrow> byte list \<Rightarrow> loff_t \<Rightarrow> (errno + nat) \<times> sys" where
  "sys_pwrite s d buf off =
     (case files s d of
        None \<Rightarrow> (Inl EBADF, s)
      | Some f \<Rightarrow>
          if sint off < 0 then (Inl EINVAL, s)
          else if buf = [] then (Inr 0, s)
          else if fsize_limit s \<le> unat off then (Inl EFBIG, s)
          else let n = min (length buf) (fsize_limit s - unat off)
               in (Inr n, s\<lparr>files := (files s)(d \<mapsto> file_write f (unat off) (take n buf))\<rparr>))"

definition sys_ftruncate :: "sys \<Rightarrow> nat \<Rightarrow> loff_t \<Rightarrow> (errno + unit) \<times> sys" where
  "sys_ftruncate s d len =
     (case files s d of
        None \<Rightarrow> (Inl EBADF, s)
      | Some f \<Rightarrow>
          if sint len < 0 then (Inl EINVAL, s)
          else if fsize_limit s < unat len then (Inl EFBIG, s)
          else (Inr (), s\<lparr>files := (files s)(d \<mapsto> file_truncate f (unat len))\<rparr>))"

text \<open>\<open>fallocate\<close> with \<open>FALLOC_FL_PUNCH_HOLE | FALLOC_FL_KEEP_SIZE\<close>.\<close>

definition sys_fallocate_punch :: "sys \<Rightarrow> nat \<Rightarrow> loff_t \<Rightarrow> loff_t \<Rightarrow> (errno + unit) \<times> sys" where
  "sys_fallocate_punch s d off len =
     (case files s d of
        None \<Rightarrow> (Inl EBADF, s)
      | Some f \<Rightarrow>
          if sint off < 0 \<or> sint len \<le> 0 then (Inl EINVAL, s)
          else if LLONG_MAX < unat off + unat len then (Inl EFBIG, s)
          else (Inr (), s\<lparr>files := (files s)(d \<mapsto> file_punch f (unat off) (unat len))\<rparr>))"

text \<open>\<open>fstat\<close>: the size and the number of 512-byte blocks allocated.\<close>

record stat =
  st_size :: loff_t
  st_blocks :: u64

definition sys_fstat :: "sys \<Rightarrow> nat \<Rightarrow> errno + stat" where
  "sys_fstat s d =
     (case files s d of
        None \<Rightarrow> Inl EBADF
      | Some f \<Rightarrow>
          if LLONG_MAX < f_size f then Inl EOVERFLOW
          else Inr \<lparr>st_size = of_nat (f_size f),
                    st_blocks = of_nat (card (f_pages f) * (PAGE_SIZE div 512))\<rparr>)"



definition sys_close :: "sys \<Rightarrow> nat \<Rightarrow> sys" where
  "sys_close s d = s\<lparr>files := (files s)(d := None)\<rparr>"

section \<open>Loading, storing and discarding (libxfs/xfile.c)\<close>

text \<open>
  \<open>xf->fcb->fd\<close>. C gives no meaning to a read through a pointer to a freed control
  block; the model makes the call fail with \<open>EFAULT\<close> there, which no path of the
  library returns otherwise.
\<close>

definition fcb_fd :: "sys \<Rightarrow> nat \<Rightarrow> errno + nat" where
  "fcb_fd s p = (case fcbs s p of None \<Rightarrow> Inl EFAULT | Some c \<Rightarrow> Inr (fd c))"

definition xfile_fd :: "sys \<Rightarrow> xfile \<Rightarrow> errno + nat" where
  "xfile_fd s xf = fcb_fd s (fcb xf)"

definition xfile_maxbytes :: "xfile \<Rightarrow> loff_t" where
  "xfile_maxbytes xf = (if 0 < maxbytes xf then maxbytes xf else of_nat LLONG_MAX)"

text \<open>
  \<open>xfile_load\<close>. The test \<open>xfile_maxbytes(xf) - pos < count\<close> subtracts two
  \<open>loff_t\<close> and compares the difference with a \<open>size_t\<close>: on LP64 both sides are
  converted to unsigned 64 bits, which is the order \<open><\<close> of words. The result is the
  content of the caller's buffer after a successful call.
\<close>

definition xfile_load :: "sys \<Rightarrow> xfile \<Rightarrow> nat \<Rightarrow> loff_t \<Rightarrow> errno + byte list" where
  "xfile_load s xf count pos =
     (if INT_MAX < count then Inl ENOMEM
      else if xfile_maxbytes xf - pos < of_nat count then Inl ENOMEM
      else case xfile_fd s xf of
             Inl e \<Rightarrow> Inl e
           | Inr d \<Rightarrow>
               (case sys_pread s d count (pos + partition_pos xf) of
                  Inl e \<Rightarrow> Inl e
                | Inr got \<Rightarrow> if length got \<noteq> count then Inl ENOMEM else Inr got))"

text \<open>\<open>xfile_store\<close>: \<open>count\<close> is the length of \<open>buf\<close>.\<close>

definition xfile_store :: "sys \<Rightarrow> xfile \<Rightarrow> byte list \<Rightarrow> loff_t \<Rightarrow> (errno + unit) \<times> sys" where
  "xfile_store s xf buf pos =
     (if INT_MAX < length buf then (Inl E2BIG, s)
      else if xfile_maxbytes xf - pos < of_nat (length buf) then (Inl EFBIG, s)
      else case xfile_fd s xf of
             Inl e \<Rightarrow> (Inl e, s)
           | Inr d \<Rightarrow>
               (case sys_pwrite s d buf (pos + partition_pos xf) of
                  (Inl e, s') \<Rightarrow> (Inl e, s')
                | (Inr n, s') \<Rightarrow> if n \<noteq> length buf then (Inl ENOMEM, s') else (Inr (), s')))"

text \<open>
  \<open>xfile_discard\<close>: \<open>fallocate(xf->fcb->fd, PUNCH_HOLE | KEEP_SIZE, pos, count)\<close>; the
  result of the call is dropped.
\<close>

definition xfile_discard :: "sys \<Rightarrow> xfile \<Rightarrow> loff_t \<Rightarrow> u64 \<Rightarrow> sys" where
  "xfile_discard s xf pos count =
     (case xfile_fd s xf of
        Inl e \<Rightarrow> s
      | Inr d \<Rightarrow> snd (sys_fallocate_punch s d pos count))"

section \<open>The pool of control blocks (libxfs/xfile.c)\<close>

text \<open>
  \<open>malloc\<close> of a control block gives a fresh address, or fails when the heap is
  exhausted. \<open>kmalloc\<close> of a \<open>struct xfile\<close> only counts: the model holds an xfile as
  a value, not by address.
\<close>

definition malloc :: "sys \<Rightarrow> (nat \<times> sys) option" where
  "malloc s =
     (if mem_free s = 0 then None
      else Some (heap_next s, s\<lparr>mem_free := mem_free s - 1, heap_next := heap_next s + 1\<rparr>))"

definition kmalloc :: "sys \<Rightarrow> sys option" where
  "kmalloc s = (if mem_free s = 0 then None else Some (s\<lparr>mem_free := mem_free s - 1\<rparr>))"

definition kfree :: "sys \<Rightarrow> sys" where
  "kfree s = s\<lparr>mem_free := mem_free s + 1\<rparr>"

definition free_fcb :: "sys \<Rightarrow> nat \<Rightarrow> sys" where
  "free_fcb s p = s\<lparr>fcbs := (fcbs s)(p := None), mem_free := mem_free s + 1\<rparr>"

text \<open>
  \<open>xfile_create_fd\<close> asks for an anonymous file five ways (\<open>memfd_create\<close> with and
  without \<open>MFD_NOEXEC_SEAL\<close>, \<open>O_TMPFILE\<close> in /dev/shm and /tmp, \<open>mkostemp\<close>) and takes
  the first descriptor it gets. The ways differ in the name and the mode bits of the
  file, which the model does not hold: one call stands for them, giving the lowest
  unused descriptor of an empty file, or failing when the descriptors are exhausted.
\<close>

definition empty_file :: memfile where
  "empty_file = \<lparr>f_size = 0, f_bytes = (\<lambda>i. 0), f_pages = {}\<rparr>"

definition xfile_create_fd :: "sys \<Rightarrow> (errno + nat) \<times> sys" where
  "xfile_create_fd s =
     (case find (\<lambda>d. files s d = None) [0 ..< nofile s] of
        None \<Rightarrow> (Inl EMFILE, s)
      | Some d \<Rightarrow> (Inr d, s\<lparr>files := (files s)(d \<mapsto> empty_file)\<rparr>))"

text \<open>
  \<open>xfile_fcb_create\<close>: the new control block is linked only to itself
  (\<open>list_head_init\<close>): it is not put on \<open>fcb_list\<close>.
\<close>

definition xfile_fcb_create :: "sys \<Rightarrow> (errno + nat) \<times> sys" where
  "xfile_fcb_create s =
     (case xfile_create_fd s of
        (Inl e, s1) \<Rightarrow> (Inl e, s1)
      | (Inr d, s1) \<Rightarrow>
          (case malloc s1 of
             None \<Rightarrow> (Inl ENOMEM, sys_close s1 d)
           | Some (p, s2) \<Rightarrow>
               (Inr p, s2\<lparr>fcbs := (fcbs s2)(p \<mapsto> \<lparr>fd = d, refcount = 1\<rparr>)\<rparr>)))"

text \<open>
  \<open>xfile_fcb_irele\<close>. \<open>list_empty(&fcb->fcb_list)\<close> holds when the block is not on
  the global list. \<open>statbuf.st_size == pos + len\<close> compares 64-bit values.
\<close>

definition xfile_fcb_irele :: "sys \<Rightarrow> nat \<Rightarrow> loff_t \<Rightarrow> u64 \<Rightarrow> sys" where
  "xfile_fcb_irele s p pos len =
     (case fcbs s p of
        None \<Rightarrow> s
      | Some c \<Rightarrow>
          if p \<notin> set (fcb_list s) then free_fcb (sys_close s (fd c)) p
          else if refcount c - 1 = 0
          then free_fcb (sys_close (s\<lparr>fcb_list := removeAll p (fcb_list s)\<rparr>) (fd c)) p
          else
            let s1 = s\<lparr>fcbs := (fcbs s)(p \<mapsto> c\<lparr>refcount := refcount c - 1\<rparr>)\<rparr>
            in if 0 < len
               then (case sys_fstat s1 (fd c) of
                       Inl e \<Rightarrow> s1
                     | Inr statbuf \<Rightarrow>
                         if st_size statbuf = pos + len
                         then snd (sys_ftruncate s1 (fd c) pos)
                         else s1)
               else s1)"

text \<open>
  Modelled from the spec: \<open>roundup_64\<close>, a helper of libxfs_priv.h that is not among
  the sources; the spec says that the allocator "rounds \<open>max_bytes\<close> up to the page
  size". It is written here as 64-bit unsigned arithmetic:
  \<open>x += y - 1; do_div(x, y); return x * y;\<close>.
\<close>

definition roundup_64 :: "u64 \<Rightarrow> nat \<Rightarrow> u64" where
  "roundup_64 x y = ((x + (of_nat y - 1)) div of_nat y) * of_nat y"

text \<open>
  The loop of \<open>xfile_fcb_find\<close> over \<open>fcb_list\<close>: the first control block whose file
  can be stat'ed and extended by \<open>maxbytes\<close> (already rounded) past its rounded size is
  taken, and its reference count goes up by one.
\<close>

fun fcb_scan :: "sys \<Rightarrow> u64 \<Rightarrow> nat list \<Rightarrow> (nat \<times> loff_t) option \<times> sys" where
  "fcb_scan s mbytes [] = (None, s)"
| "fcb_scan s mbytes (p # ps) =
     (case fcbs s p of
        None \<Rightarrow> fcb_scan s mbytes ps
      | Some c \<Rightarrow>
          (case sys_fstat s (fd c) of
             Inl e \<Rightarrow> fcb_scan s mbytes ps
           | Inr statbuf \<Rightarrow>
               (case sys_ftruncate s (fd c) (roundup_64 (st_size statbuf) PAGE_SIZE + mbytes) of
                  (Inl e, s1) \<Rightarrow> fcb_scan s1 mbytes ps
                | (Inr u, s1) \<Rightarrow>
                    (Some (p, roundup_64 (st_size statbuf) PAGE_SIZE),
                     s1\<lparr>fcbs := (fcbs s1)(p \<mapsto> c\<lparr>refcount := refcount c + 1\<rparr>)\<rparr>))))"

definition xfile_fcb_find :: "sys \<Rightarrow> u64 \<Rightarrow> (errno + nat \<times> loff_t) \<times> sys" where
  "xfile_fcb_find s mbytes =
     (if mbytes = 0
      then (case xfile_fcb_create s of
              (Inl e, s1) \<Rightarrow> (Inl e, s1)
            | (Inr p, s1) \<Rightarrow> (Inr (p, 0), s1))
      else
        (case fcb_scan s (roundup_64 mbytes PAGE_SIZE) (fcb_list s) of
           (Some found, s1) \<Rightarrow> (Inr found, s1)
         | (None, s1) \<Rightarrow>
             (case xfile_fcb_create s1 of
                (Inl e, s2) \<Rightarrow> (Inl e, s2)
              | (Inr p, s2) \<Rightarrow>
                  (case fcb_fd s2 p of
                     Inl e \<Rightarrow> (Inl e, s2)
                   | Inr d \<Rightarrow>
                       (case sys_ftruncate s2 d (roundup_64 mbytes PAGE_SIZE) of
                          (Inl e, s3) \<Rightarrow>
                            (Inl e, xfile_fcb_irele s3 p 0 (roundup_64 mbytes PAGE_SIZE))
                        | (Inr u, s3) \<Rightarrow>
                            (Inr (p, 0), s3\<lparr>fcb_list := fcb_list s3 @ [p]\<rparr>))))))"

text \<open>
  \<open>xfile_create\<close> and \<open>xfile_destroy\<close>. The description only names the file and is
  left out. The xfile keeps the caller's \<open>maxbytes\<close>, not the rounded value.
\<close>

definition xfile_create :: "sys \<Rightarrow> u64 \<Rightarrow> (errno + xfile) \<times> sys" where
  "xfile_create s mbytes =
     (case kmalloc s of
        None \<Rightarrow> (Inl ENOMEM, s)
      | Some s1 \<Rightarrow>
          (case xfile_fcb_find s1 mbytes of
             (Inl e, s2) \<Rightarrow> (Inl e, kfree s2)
           | (Inr (p, pos), s2) \<Rightarrow>
               (Inr \<lparr>fcb = p, partition_pos = pos, maxbytes = mbytes\<rparr>, s2)))"

definition xfile_destroy :: "sys \<Rightarrow> xfile \<Rightarrow> sys" where
  "xfile_destroy s xf =
     kfree (xfile_fcb_irele s (fcb xf) (partition_pos xf) (maxbytes xf))"

text \<open>A process that has made no xfile yet, with room for 16 descriptors.\<close>

definition sys_init :: sys where
  "sys_init =
     \<lparr>files = Map.empty, fcbs = Map.empty, fcb_list = [], vmas = Map.empty,
      fsize_limit = LLONG_MAX, nofile = 16, mem_free = 64, heap_next = 1,
      vma_free = 64, vma_next = 1\<rparr>"

section \<open>The size of a partition (libxfs/xfile.c)\<close>






section \<open>The buffer target (libxfs/buf_mem.c)\<close>

text \<open>
  \<open>struct xfs_buftarg\<close>, cut down to the field the memory-backed code reads:
  \<open>bt_xfile\<close> is \<open>NULL\<close> (\<open>None\<close>) for a disk-backed target.
\<close>

record xfs_buftarg =
  bt_xfile :: "xfile option"

definition xfs_buftarg_is_mem :: "xfs_buftarg \<Rightarrow> bool" where
  "xfs_buftarg_is_mem target = (bt_xfile target \<noteq> None)"

text \<open>
  \<open>xmbuf_verify_daddr\<close>: \<open>return daddr < (xf->maxbytes >> BBSHIFT);\<close>. The left
  operand is a signed 64-bit \<open>xfs_daddr_t\<close>, the right one an unsigned 64-bit value,
  so C compares them as unsigned: the word order \<open><\<close>. The function dereferences
  \<open>bt_xfile\<close> (and asserts that it is set), so on a target that is not memory-backed
  there is no result: \<open>None\<close>.
\<close>

definition xmbuf_verify_daddr :: "xfs_buftarg \<Rightarrow> xfs_daddr_t \<Rightarrow> bool option" where
  "xmbuf_verify_daddr btp daddr =
     (case bt_xfile btp of
        None \<Rightarrow> None
      | Some xf \<Rightarrow> Some (daddr < drop_bit BBSHIFT (maxbytes xf)))"

section \<open>Sequences of calls and what holds of a control block\<close>

text \<open>
  The vocabulary of the claims about the pool. \<open>fcb_shared s p d r\<close>: the control block
  \<open>p\<close> is live, on \<open>fcb_list\<close>, holds descriptor \<open>d\<close>, which is open, and has
  reference count \<open>r\<close>. \<open>fcb_destroyed s p d\<close>: the block has been freed, is off the
  list, and its descriptor is closed. \<open>fcb_private s p d\<close>: the block is live with
  reference count 1 and is not on the list.
\<close>

definition fcb_shared :: "sys \<Rightarrow> nat \<Rightarrow> nat \<Rightarrow> u32 \<Rightarrow> bool" where
  "fcb_shared s p d r =
     (fcbs s p = Some \<lparr>fd = d, refcount = r\<rparr> \<and> p \<in> set (fcb_list s) \<and> files s d \<noteq> None)"

definition fcb_destroyed :: "sys \<Rightarrow> nat \<Rightarrow> nat \<Rightarrow> bool" where
  "fcb_destroyed s p d = (fcbs s p = None \<and> p \<notin> set (fcb_list s) \<and> files s d = None)"

definition fcb_private :: "sys \<Rightarrow> nat \<Rightarrow> nat \<Rightarrow> bool" where
  "fcb_private s p d = (fcbs s p = Some \<lparr>fd = d, refcount = 1\<rparr> \<and> p \<notin> set (fcb_list s))"

text \<open>
  The invariant of the pool: live control blocks and the entries of the list lie below
  the next fresh address, every live control block holds an open descriptor, and no two
  hold the same one.
\<close>

definition wf_sys :: "sys \<Rightarrow> bool" where
  "wf_sys s =
     ((\<forall>p. fcbs s p \<noteq> None \<longrightarrow> p < heap_next s)
      \<and> (\<forall>p \<in> set (fcb_list s). p < heap_next s)
      \<and> (\<forall>p c. fcbs s p = Some c \<longrightarrow> files s (fd c) \<noteq> None)
      \<and> (\<forall>p q c c'. fcbs s p = Some c \<longrightarrow> fcbs s q = Some c' \<longrightarrow> fd c = fd c' \<longrightarrow> p = q))"

text \<open>
  A client of the library: any sequence of creations, destructions, stores and
  discards. \<open>run\<close> gives the xfiles the sequence created and the final state.
\<close>

datatype pool_op =
  Create u64 | Destroy xfile | Store xfile "byte list" loff_t | Discard xfile loff_t u64

fun run_op :: "sys \<Rightarrow> pool_op \<Rightarrow> xfile list \<times> sys" where
  "run_op s (Create m) =
     (case xfile_create s m of (Inl e, s') \<Rightarrow> ([], s') | (Inr xf, s') \<Rightarrow> ([xf], s'))"
| "run_op s (Destroy xf) = ([], xfile_destroy s xf)"
| "run_op s (Store xf buf pos) = ([], snd (xfile_store s xf buf pos))"
| "run_op s (Discard xf pos n) = ([], xfile_discard s xf pos n)"

fun run :: "sys \<Rightarrow> pool_op list \<Rightarrow> xfile list \<times> sys" where
  "run s [] = ([], s)"
| "run s (x # xs) =
     (case run_op s x of (made, s') \<Rightarrow>
        (case run s' xs of (made', s'') \<Rightarrow> (made @ made', s'')))"

text \<open>
  The client's side of the pool. \<open>live\<close> is the list of the xfiles that the client
  has created and not yet destroyed; \<open>cnt p live\<close> is the number of them on the control
  block \<open>p\<close>. \<open>step_live\<close> and \<open>run_live\<close> run a sequence of calls like \<open>run\<close> and
  keep that list: a creation that succeeds adds its xfile, a destruction removes it.
\<close>

definition cnt :: "nat \<Rightarrow> xfile list \<Rightarrow> nat" where
  "cnt p live = length (filter (\<lambda>xf. fcb xf = p) live)"

fun step_live :: "sys \<Rightarrow> xfile list \<Rightarrow> pool_op \<Rightarrow> sys \<times> xfile list" where
  "step_live s live (Create m) =
     (case xfile_create s m of (Inl e, s') \<Rightarrow> (s', live) | (Inr xf, s') \<Rightarrow> (s', xf # live))"
| "step_live s live (Destroy xf) = (xfile_destroy s xf, remove1 xf live)"
| "step_live s live (Store xf buf pos) = (snd (xfile_store s xf buf pos), live)"
| "step_live s live (Discard xf pos n) = (xfile_discard s xf pos n, live)"

fun run_live :: "sys \<Rightarrow> xfile list \<Rightarrow> pool_op list \<Rightarrow> sys \<times> xfile list" where
  "run_live s live [] = (s, live)"
| "run_live s live (x # xs) =
     (case step_live s live x of (s', live') \<Rightarrow> run_live s' live' xs)"

text \<open>
  What the library asks of its client: \<open>xfile_destroy\<close> is called on an xfile that is
  live. \<open>refcount\<close> is an \<open>unsigned int\<close>, and \<open>client_ok\<close> also keeps a creation from
  joining a control block of the list that already has \<open>2 ^ 32\<close> live xfiles.
\<close>

fun op_ok :: "sys \<Rightarrow> xfile list \<Rightarrow> pool_op \<Rightarrow> bool" where
  "op_ok s live (Create m) = (\<forall>p \<in> set (fcb_list s). cnt p live < 2 ^ 32)"
| "op_ok s live (Destroy xf) = (xf \<in> set live)"
| "op_ok s live (Store xf buf pos) = True"
| "op_ok s live (Discard xf pos n) = True"

fun client_ok :: "sys \<Rightarrow> xfile list \<Rightarrow> pool_op list \<Rightarrow> bool" where
  "client_ok s live [] = True"
| "client_ok s live (x # xs) =
     (op_ok s live x \<and> (case step_live s live x of (s', live') \<Rightarrow> client_ok s' live' xs))"

text \<open>
  The invariant that ties the pool to the client's list: a control block is live exactly
  when some live xfile is on it; no control block has more than \<open>2 ^ 32\<close> live xfiles;
  the reference count of a control block of the list is the number of its live xfiles,
  as an \<open>unsigned int\<close>; an xfile with \<open>maxbytes = 0\<close> is alone on a control block
  that is not on the list, and every other live xfile is on a control block of the list.
\<close>

definition pool_inv :: "sys \<Rightarrow> xfile list \<Rightarrow> bool" where
  "pool_inv s live =
     (wf_sys s
      \<and> (\<forall>p. (fcbs s p \<noteq> None) = (0 < cnt p live))
      \<and> (\<forall>p. cnt p live \<le> 2 ^ 32)
      \<and> (\<forall>p \<in> set (fcb_list s). \<exists>c. fcbs s p = Some c \<and> refcount c = of_nat (cnt p live))
      \<and> (\<forall>xf \<in> set live. if maxbytes xf = 0
             then fcb xf \<notin> set (fcb_list s) \<and> cnt (fcb xf) live = 1
             else fcb xf \<in> set (fcb_list s)))"

text \<open>
  \<open>chain k s\<close>: the pool of \<open>s\<close> is one control block, at address 1 with descriptor 0,
  whose file is \<open>k\<close> pages long and whose reference count is \<open>k\<close> as an
  \<open>unsigned int\<close>; the state after \<open>k\<close> creations of one page each.
\<close>

definition chain :: "nat \<Rightarrow> sys \<Rightarrow> bool" where
  "chain k s =
     ((\<exists>f. files s 0 = Some f \<and> f_size f = k * 4096)
      \<and> fcbs s 1 = Some \<lparr>fd = 0, refcount = of_nat k\<rparr>
      \<and> fcb_list s = [1] \<and> fsize_limit s = LLONG_MAX)"


section \<open>Example states\<close>

text \<open>
  States reached from \<open>sys_init\<close> through the library's own calls, used where a
  theorem is shown at a concrete input. \<open>sys_ab\<close>: two partitions of one page each,
  \<open>xf_a\<close> and \<open>xf_b\<close>, which \<open>xfile_create\<close> places in the same file;
  \<open>sys_ab_stored\<close>: the same after three bytes have been stored at the start of each.
  \<open>sys_small\<close>: one partition of 100 bytes. \<open>xf_c\<close>: the partition that the first
  bounded creation after one private creation returns. \<open>sys_priv\<close>: one private
  (\<open>maxbytes = 0\<close>) partition in a process whose files cannot grow beyond two bytes.
\<close>

definition xf_a :: xfile where
  "xf_a = \<lparr>fcb = 1, partition_pos = 0, maxbytes = 4096\<rparr>"

definition xf_b :: xfile where
  "xf_b = \<lparr>fcb = 1, partition_pos = 4096, maxbytes = 4096\<rparr>"

definition sys_ab :: sys where
  "sys_ab = snd (xfile_create (snd (xfile_create sys_init 4096)) 4096)"

definition sys_ab_stored :: sys where
  "sys_ab_stored =
     snd (xfile_store (snd (xfile_store sys_ab xf_a [1, 2, 3] 0)) xf_b [9, 8, 7] 0)"

definition xf_small :: xfile where
  "xf_small = \<lparr>fcb = 1, partition_pos = 0, maxbytes = 100\<rparr>"

definition sys_small :: sys where
  "sys_small = snd (xfile_create sys_init 100)"

definition xf_priv :: xfile where
  "xf_priv = \<lparr>fcb = 1, partition_pos = 0, maxbytes = 0\<rparr>"

definition sys_priv :: sys where
  "sys_priv = snd (xfile_create (sys_init\<lparr>fsize_limit := 2\<rparr>) 0)"

definition xf_c :: xfile where
  "xf_c = \<lparr>fcb = 2, partition_pos = 0, maxbytes = 4096\<rparr>"

text \<open>\<open>sys_big\<close>: the initial state of a process with room for \<open>2 ^ 33\<close> allocations.\<close>


definition sys_big :: sys where
  "sys_big = sys_init\<lparr>mem_free := 2 ^ 33\<rparr>"

section \<open>Claims\<close>

subsection \<open>Evaluation and shared lemmas\<close>

lemmas model_defs =
  xfile_create_def kmalloc_def kfree_def malloc_def free_fcb_def sys_init_def
  xfile_fcb_find_def roundup_64_def PAGE_SIZE_def xfile_fcb_create_def xfile_create_fd_def empty_file_def
  upt_rec fcb_fd_def xfile_fd_def sys_ftruncate_def sys_fstat_def sys_pread_def
  sys_pwrite_def sys_fallocate_punch_def sys_close_def LLONG_MAX_def INT_MAX_def
  file_truncate_def file_read_def file_write_def file_punch_def file_byte_def
  xfile_load_def xfile_store_def xfile_discard_def xfile_maxbytes_def xfile_fcb_irele_def
  xfile_destroy_def xf_a_def xf_b_def sys_ab_def sys_ab_stored_def xf_small_def
  sys_small_def xf_priv_def sys_priv_def

lemma sys_ab_created:
  "fst (xfile_create sys_init 4096) = Inr xf_a \<and>
   xfile_create (snd (xfile_create sys_init 4096)) 4096 = (Inr xf_b, sys_ab)"
  by (simp add: model_defs)

lemma sys_small_created: "xfile_create sys_init 100 = (Inr xf_small, sys_small)"
  by (simp add: model_defs)

lemma sys_priv_created:
  "xfile_create (sys_init\<lparr>fsize_limit := 2\<rparr>) 0 = (Inr xf_priv, sys_priv)"
  by (simp add: model_defs)

lemma map_nth_shift: "map (\<lambda>i. buf ! (i - off)) [off ..< off + length buf] = buf"
  by (rule nth_equalityI) simp_all

lemma file_read_write: "file_read (file_write f off buf) off (length buf) = buf"
proof -
  have "map (\<lambda>i. if off \<le> i \<and> i < off + length buf then buf ! (i - off) else file_byte f i)
          [off ..< off + length buf] = map (\<lambda>i. buf ! (i - off)) [off ..< off + length buf]"
    by (rule map_cong) simp_all
  then show ?thesis
    by (simp add: file_read_def file_write_def map_nth_shift)
qed

lemma sys_pwrite_fcbs: "sys_pwrite s d buf off = (r, s') \<Longrightarrow> fcbs s' = fcbs s"
  by (auto simp: sys_pwrite_def Let_def split: option.splits if_splits)

lemma sys_pwrite_full:
  assumes "sys_pwrite s d buf off = (Inr (length buf), s')"
  shows "sys_pread s' d (length buf) off = Inr buf"
proof (cases "buf = []")
  case True
  with assms show ?thesis
    by (auto simp: sys_pwrite_def sys_pread_def file_read_def split: option.splits if_splits)
next
  case False
  with assms obtain f where f: "files s d = Some f" "\<not> sint off < 0"
    and s': "s' = s\<lparr>files := (files s)(d \<mapsto> file_write f (unat off) buf)\<rparr>"
    by (auto simp: sys_pwrite_def Let_def min_def split: option.splits if_splits)
  then show ?thesis
    by (simp add: sys_pread_def file_read_write)
qed


subsection \<open>C2: address validation\<close>

lemma sint64_eq:
  "sint (w :: u64) = (if uint w < 2 ^ 63 then uint w else uint w - 2 ^ 64)"
proof -
  have b: "0 \<le> uint w" "uint w < 2 ^ 64"
    using uint_bounded [of w] by simp_all
  have "sint w = (uint w + 2 ^ 63) mod 2 ^ 64 - 2 ^ 63"
    by (simp add: sint_uint signed_take_bit_eq_take_bit_shift take_bit_eq_mod)
  also have "\<dots> = (if uint w < 2 ^ 63 then uint w else uint w - 2 ^ 64)"
    using b by (auto simp: mod_pos_pos_trivial mod_add_if_z)
  finally show ?thesis .
qed

lemma daddr_less_iff:
  "(a :: u64) < drop_bit 9 (m :: u64) \<longleftrightarrow> 0 \<le> sint a \<and> (sint a + 1) * 512 \<le> uint m"
proof -
  have b: "0 \<le> uint a" "uint a < 2 ^ 64" "0 \<le> uint m" "uint m < 2 ^ 64"
    using uint_bounded [of a] uint_bounded [of m] by simp_all
  have "a < drop_bit 9 m \<longleftrightarrow> unat a < unat m div 512"
    by (simp add: word_less_nat_alt unat_drop_bit_eq drop_bit_eq_div unat_div)
  also have "\<dots> \<longleftrightarrow> Suc (unat a) * 512 \<le> unat m"
    using less_eq_div_iff_mult_less_eq [of 512 "Suc (unat a)" "unat m"]
    by (simp add: Suc_le_eq)
  also have "\<dots> \<longleftrightarrow> (uint a + 1) * 512 \<le> uint m"
    by (simp only: uint_nat) presburger
  also have "\<dots> \<longleftrightarrow> 0 \<le> sint a \<and> (sint a + 1) * 512 \<le> uint m"
    using b by (simp add: sint64_eq)
  finally show ?thesis .
qed

text \<open>
  Claim C2 as stated compares the block address with \<open>max_bytes\<close> shifted right by the
  page shift. The code shifts by \<open>BBSHIFT\<close>: with a partition of one page (4096 bytes)
  the address 1, which is \<open>max_bytes >> page_shift\<close> (one past the last page), is
  accepted, because the partition holds eight basic blocks of 512 bytes.
\<close>

theorem C2_page_shift_counterexample:
  "xmbuf_verify_daddr \<lparr>bt_xfile = Some \<lparr>fcb = 0, partition_pos = 0, maxbytes = 4096\<rparr>\<rparr>
     (drop_bit XMBUF_BLOCKSHIFT 4096) = Some True
   \<and> \<not> ((1 :: u64) < drop_bit XMBUF_BLOCKSHIFT 4096)"
  by (simp add: xmbuf_verify_daddr_def BBSHIFT_def XMBUF_BLOCKSHIFT_def)

text \<open>
  Claim C2, amended: on a memory-backed target, \<open>xmbuf_verify_daddr\<close> accepts the
  address \<open>a\<close> exactly when \<open>a\<close> is not negative and the whole 512-byte basic block
  \<open>a\<close> lies below the partition's \<open>maxbytes\<close> (that is, \<open>a < maxbytes >> BBSHIFT\<close>
  with \<open>BBSHIFT = 9\<close>); the address \<open>maxbytes >> BBSHIFT\<close>, one past the last basic
  block, is rejected.
\<close>

theorem C2_verify_daddr_basic_blocks:
  "xmbuf_verify_daddr (btp\<lparr>bt_xfile := Some xf\<rparr>) a
     = Some (0 \<le> sint a \<and> (sint a + 1) * 512 \<le> uint (maxbytes xf))
   \<and> xmbuf_verify_daddr (btp\<lparr>bt_xfile := Some xf\<rparr>) (drop_bit BBSHIFT (maxbytes xf))
     = Some False"
  by (simp add: xmbuf_verify_daddr_def BBSHIFT_def daddr_less_iff)

subsection \<open>C1: discard and the other partitions\<close>

text \<open>
  Claim C1 at a concrete input. \<open>xf_a\<close> and \<open>xf_b\<close> share a file; \<open>xf_a\<close> holds 1, 2, 3
  and \<open>xf_b\<close> holds 9, 8, 7 at their position 0. \<open>xfile_discard\<close> on \<open>xf_b\<close> for its
  whole range passes the position to \<open>fallocate\<close> without adding \<open>partition_pos\<close>:
  afterwards \<open>xf_a\<close> reads zeroes and \<open>xf_b\<close> still reads its own bytes.
\<close>

theorem C1_discard_not_translated:
  "xfile_load sys_ab_stored xf_a 3 0 = Inr [1, 2, 3]
   \<and> xfile_load sys_ab_stored xf_b 3 0 = Inr [9, 8, 7]
   \<and> xfile_load (xfile_discard sys_ab_stored xf_b 0 4096) xf_a 3 0 = Inr [0, 0, 0]
   \<and> xfile_load (xfile_discard sys_ab_stored xf_b 0 4096) xf_b 3 0 = Inr [9, 8, 7]"
  by (simp add: model_defs)

subsection \<open>C3: capacity errors of load and store\<close>

text \<open>
  Claim C3 at concrete inputs. On the one-page partition \<open>xf_a\<close>, one byte at position
  4096 exceeds the capacity: \<open>xfile_load\<close> returns \<open>ENOMEM\<close> and the state is untouched,
  but \<open>xfile_store\<close> returns \<open>EFBIG\<close>; for 2^31 bytes at position 0 it returns \<open>E2BIG\<close>.
  Only a short transfer makes \<open>xfile_store\<close> return \<open>ENOMEM\<close> (three bytes into a file
  that cannot grow beyond two). One byte at position 5000, beyond the capacity, is
  accepted by both, because the capacity test compares \<open>4096 - 5000\<close> as an unsigned
  number.
\<close>

theorem C3_store_error_codes:
  "xfile_load sys_ab xf_a 1 4096 = Inl ENOMEM
   \<and> xfile_store sys_ab xf_a [0] 4096 = (Inl EFBIG, sys_ab)
   \<and> xfile_load sys_ab xf_a (2 ^ 31) 0 = Inl ENOMEM
   \<and> xfile_store sys_ab xf_a (replicate (2 ^ 31) 0) 0 = (Inl E2BIG, sys_ab)
   \<and> fst (xfile_store sys_priv xf_priv [1, 2, 3] 0) = Inl ENOMEM
   \<and> xfile_load sys_ab xf_a 1 5000 = Inr [0]
   \<and> fst (xfile_store sys_ab xf_a [7] 5000) = Inr ()"
  by (simp add: model_defs)

subsection \<open>C4: a store followed by a load\<close>

text \<open>
  Claim C4: when \<open>xfile_store\<close> of \<open>buf\<close> at \<open>pos\<close> succeeds, \<open>xfile_load\<close> of the same
  count at the same position, in the state the store left, succeeds and returns \<open>buf\<close>
  byte for byte. This holds for every partition, bounded or not, and every request the
  store accepts, so in particular for every range within the partition's maximum.
\<close>

theorem C4_store_load_roundtrip:
  assumes "xfile_store s xf buf pos = (Inr (), s')"
  shows "xfile_load s' xf (length buf) pos = Inr buf"
proof -
  from assms have chk: "\<not> INT_MAX < length buf" "\<not> xfile_maxbytes xf - pos < of_nat (length buf)"
    by (auto simp: xfile_store_def split: if_splits)
  from assms chk obtain d where d: "xfile_fd s xf = Inr d"
    and w: "sys_pwrite s d buf (pos + partition_pos xf) = (Inr (length buf), s')"
    by (auto simp: xfile_store_def split: sum.splits prod.splits if_splits)
  have "xfile_fd s' xf = Inr d"
    using d sys_pwrite_fcbs [OF w] by (simp add: xfile_fd_def fcb_fd_def)
  with chk sys_pwrite_full [OF w] show ?thesis
    by (simp add: xfile_load_def)
qed

theorem C4_store_load_roundtrip_witness:
  "xfile_store sys_ab xf_b [9, 8, 7] 4000
     = (Inr (), snd (xfile_store sys_ab xf_b [9, 8, 7] 4000))
   \<and> xfile_load (snd (xfile_store sys_ab xf_b [9, 8, 7] 4000)) xf_b (length [9, 8, 7 :: byte]) 4000
     = Inr [9, 8, 7]"
proof -
  have st: "xfile_store sys_ab xf_b [9, 8, 7] 4000
      = (Inr (), snd (xfile_store sys_ab xf_b [9, 8, 7] 4000))"
    by (simp add: model_defs)
  from st C4_store_load_roundtrip [OF st] show ?thesis
    by simp
qed

subsection \<open>C10: the rounding slack\<close>

text \<open>
  Claim C10 at a concrete input. A partition made with \<open>maxbytes = 100\<close> records 100,
  and its file is extended to one page. A store of one byte at position 200 has
  \<open>pos + count = 201 > 100\<close>; the difference \<open>100 - 200\<close> is compared as an unsigned
  number, the test passes, and the byte is written into the slack and read back.
\<close>

theorem C10_slack_is_reachable:
  "xfile_create sys_init 100 = (Inr xf_small, sys_small)
   \<and> maxbytes xf_small = 100
   \<and> map_option f_size (files sys_small 0) = Some 4096
   \<and> fst (xfile_store sys_small xf_small [170] 200) = Inr ()
   \<and> xfile_load (snd (xfile_store sys_small xf_small [170] 200)) xf_small 1 200 = Inr [170]"
  by (simp add: model_defs)

subsection \<open>The pool: what each call changes\<close>

lemma sys_ftruncate_frame:
  "sys_ftruncate s d len = (r, s') \<Longrightarrow>
     fcbs s' = fcbs s \<and> fcb_list s' = fcb_list s \<and> heap_next s' = heap_next s
     \<and> mem_free s' = mem_free s \<and> (\<forall>d'. (files s' d' = None) = (files s d' = None))
     \<and> (\<forall>d'. d' \<noteq> d \<longrightarrow> files s' d' = files s d')"
  by (auto simp: sys_ftruncate_def split: option.splits if_splits)

lemma sys_ftruncate_Inl: "sys_ftruncate s d len = (Inl e, s') \<Longrightarrow> s' = s"
  by (auto simp: sys_ftruncate_def split: option.splits if_splits)

lemma fcb_scan_None: "fcb_scan s mb ps = (None, s') \<Longrightarrow> s' = s"
proof (induction ps arbitrary: s)
  case Nil
  then show ?case by simp
next
  case (Cons p ps)
  then show ?case
    by (auto split: option.splits sum.splits prod.splits dest: sys_ftruncate_Inl)
qed

lemma fcb_scan_Some:
  "fcb_scan s mb ps = (Some (p, pos), s') \<Longrightarrow>
     p \<in> set ps \<and> (\<exists>c. fcbs s p = Some c \<and> files s (fd c) \<noteq> None
          \<and> fcbs s' = (fcbs s)(p \<mapsto> c\<lparr>refcount := refcount c + 1\<rparr>))
     \<and> fcb_list s' = fcb_list s \<and> heap_next s' = heap_next s
     \<and> (\<forall>d'. (files s' d' = None) = (files s d' = None))"
proof (induction ps arbitrary: s)
  case Nil
  then show ?case by simp
next
  case (Cons q ps)
  show ?case
  proof (cases "fcbs s q")
    case None
    with Cons show ?thesis by auto
  next
    case (Some c)
    show ?thesis
    proof (cases "sys_fstat s (fd c)")
      case (Inl e)
      with Some Cons show ?thesis by auto
    next
      case (Inr st)
      obtain r s1 where t: "sys_ftruncate s (fd c) (roundup_64 (st_size st) PAGE_SIZE + mb) = (r, s1)"
        by (cases "sys_ftruncate s (fd c) (roundup_64 (st_size st) PAGE_SIZE + mb)")
      show ?thesis
      proof (cases r)
        case (Inl e)
        with t have "s1 = s" by (auto dest: sys_ftruncate_Inl)
        with Some Inr t Inl Cons show ?thesis by auto
      next
        case (Inr u)
        from \<open>sys_fstat s (fd c) = Inr st\<close> have "files s (fd c) \<noteq> None"
          by (auto simp: sys_fstat_def split: option.splits)
        with Some \<open>sys_fstat s (fd c) = Inr st\<close> t Inr Cons.prems sys_ftruncate_frame [OF t]
        show ?thesis by auto
      qed
    qed
  qed
qed


lemma find_Some_holds: "find P xs = Some x \<Longrightarrow> P x"
  by (induction xs) (auto split: if_splits)

lemma xfile_create_fd_cases:
  assumes "xfile_create_fd s = (r, s')"
  obtains (fail) e where "r = Inl e" "s' = s"
    | (ok) d where "r = Inr d" "files s d = None" "s' = s\<lparr>files := (files s)(d \<mapsto> empty_file)\<rparr>"
proof (cases "find (\<lambda>d. files s d = None) [0 ..< nofile s]")
  case None
  with assms have "r = Inl EMFILE" "s' = s"
    by (simp_all add: xfile_create_fd_def)
  then show thesis by (rule fail)
next
  case (Some d)
  with assms have "r = Inr d" "s' = s\<lparr>files := (files s)(d \<mapsto> empty_file)\<rparr>"
    by (simp_all add: xfile_create_fd_def)
  moreover from Some have "files s d = None"
    by (rule find_Some_holds)
  ultimately show thesis using ok by blast
qed

lemma xfile_fcb_create_cases:
  assumes "xfile_fcb_create s = (r, s')"
  obtains (fail) e where "r = Inl e" "fcbs s' = fcbs s" "heap_next s' = heap_next s"
      "fcb_list s' = fcb_list s" "\<And>d. files s d \<noteq> None \<Longrightarrow> files s' d = files s d"
    | (ok) d where "r = Inr (heap_next s)" "files s d = None"
      "files s' = (files s)(d \<mapsto> empty_file)"
      "fcbs s' = (fcbs s)(heap_next s \<mapsto> \<lparr>fd = d, refcount = 1\<rparr>)"
      "heap_next s' = Suc (heap_next s)" "fcb_list s' = fcb_list s"
proof -
  obtain r1 s1 where c: "xfile_create_fd s = (r1, s1)"
    by (cases "xfile_create_fd s")
  from c show thesis
  proof (cases rule: xfile_create_fd_cases)
    case (fail e)
    with c assms have "r = Inl e" "s' = s"
      by (simp_all add: xfile_fcb_create_def)
    then show thesis
      by (intro that(1) [of e]) simp_all
  next
    case (ok d)
    show thesis
    proof (cases "mem_free s = 0")
      case True
      with c ok assms have "r = Inl ENOMEM" "s' = sys_close s1 d"
        by (simp_all add: xfile_fcb_create_def malloc_def)
      with ok show thesis
        by (intro that(1) [of ENOMEM]) (auto simp: sys_close_def)
    next
      case False
      with c ok assms have "r = Inr (heap_next s)"
        "s' = s1\<lparr>mem_free := mem_free s1 - 1, heap_next := heap_next s1 + 1,
               fcbs := (fcbs s1)(heap_next s1 \<mapsto> \<lparr>fd = d, refcount = 1\<rparr>)\<rparr>"
        by (simp_all add: xfile_fcb_create_def malloc_def)
      with ok show thesis
        by (intro that(2) [of d]) simp_all
    qed
  qed
qed

lemma irele_shared_last:
  "fcb_shared s p d 1 \<Longrightarrow> fcb_destroyed (xfile_fcb_irele s p pos len) p d"
  by (simp add: fcb_shared_def fcb_destroyed_def xfile_fcb_irele_def free_fcb_def sys_close_def)

lemma kfree_shared [simp]: "fcb_shared (kfree s) p d r = fcb_shared s p d r"
  by (simp add: fcb_shared_def kfree_def)

lemma kfree_destroyed [simp]: "fcb_destroyed (kfree s) p d = fcb_destroyed s p d"
  by (simp add: fcb_destroyed_def kfree_def)

lemma fcb_shared_mem_free [simp]:
  "fcb_shared (s\<lparr>mem_free := k\<rparr>) p d r = fcb_shared s p d r"
  by (simp add: fcb_shared_def)

text \<open>The kinds of state change the pool makes; each keeps the invariant.\<close>

lemma wf_files_only:
  assumes "wf_sys s" "fcbs s' = fcbs s" "fcb_list s' = fcb_list s"
    "heap_next s' = heap_next s" "\<And>d. files s d \<noteq> None \<Longrightarrow> files s' d \<noteq> None"
  shows "wf_sys s'"
  using assms unfolding wf_sys_def by metis

lemma wf_new_fcb:
  assumes "wf_sys s" "files s d = None"
    "fcbs s' = (fcbs s)(heap_next s \<mapsto> \<lparr>fd = d, refcount = r\<rparr>)"
    "files s' = (files s)(d \<mapsto> f)" "heap_next s' = Suc (heap_next s)"
    "fcb_list s' = fcb_list s"
  shows "wf_sys s'"
proof -
  from assms(1) have a: "\<And>p. fcbs s p \<noteq> None \<Longrightarrow> p < heap_next s"
    "\<And>p. p \<in> set (fcb_list s) \<Longrightarrow> p < heap_next s"
    "\<And>p c. fcbs s p = Some c \<Longrightarrow> files s (fd c) \<noteq> None"
    "\<And>p q c c'. fcbs s p = Some c \<Longrightarrow> fcbs s q = Some c' \<Longrightarrow> fd c = fd c' \<Longrightarrow> p = q"
    unfolding wf_sys_def by blast+
  have 1: "p < heap_next s'" if "fcbs s' p \<noteq> None" for p
    using that a(1) [of p] assms(3,5) by (auto split: if_splits)
  have 2: "p < heap_next s'" if "p \<in> set (fcb_list s')" for p
    using that a(2) [of p] assms(5,6) by auto
  have 3: "files s' (fd c) \<noteq> None" if "fcbs s' p = Some c" for p c
    using that a(3) [of p c] assms(3,4) by (auto split: if_splits)
  have 4: "p = q" if "fcbs s' p = Some c" "fcbs s' q = Some c'" "fd c = fd c'" for p q c c'
  proof (cases "p = heap_next s"; cases "q = heap_next s")
    assume "p \<noteq> heap_next s" "q \<noteq> heap_next s"
    with that assms(3) a(4) [of p c q c'] show ?thesis by simp
  next
    assume "p = heap_next s" "q \<noteq> heap_next s"
    with that assms(2,3) a(3) [of q c'] show ?thesis by auto
  next
    assume "p \<noteq> heap_next s" "q = heap_next s"
    with that assms(2,3) a(3) [of p c] show ?thesis by auto
  qed simp
  from 1 2 3 4 show ?thesis
    unfolding wf_sys_def by blast
qed

lemma wf_set_refcount:
  assumes "wf_sys s" "fcbs s q = Some c"
  shows "wf_sys (s\<lparr>fcbs := (fcbs s)(q \<mapsto> c\<lparr>refcount := r\<rparr>)\<rparr>)"
proof -
  let ?s' = "s\<lparr>fcbs := (fcbs s)(q \<mapsto> c\<lparr>refcount := r\<rparr>)\<rparr>"
  from assms(1) have a: "\<And>p. fcbs s p \<noteq> None \<Longrightarrow> p < heap_next s"
    "\<And>p. p \<in> set (fcb_list s) \<Longrightarrow> p < heap_next s"
    "\<And>p c. fcbs s p = Some c \<Longrightarrow> files s (fd c) \<noteq> None"
    "\<And>p q c c'. fcbs s p = Some c \<Longrightarrow> fcbs s q = Some c' \<Longrightarrow> fd c = fd c' \<Longrightarrow> p = q"
    unfolding wf_sys_def by blast+
  have 1: "p < heap_next ?s'" if "fcbs ?s' p \<noteq> None" for p
    using that a(1) [of p] assms(2) by (auto split: if_splits)
  have 2: "p < heap_next ?s'" if "p \<in> set (fcb_list ?s')" for p
    using that a(2) [of p] by auto
  have 3: "files ?s' (fd c') \<noteq> None" if "fcbs ?s' p = Some c'" for p c'
    using that a(3) [of p c'] a(3) [OF assms(2)] by (auto split: if_splits)
  have 4: "p = p'" if "fcbs ?s' p = Some c1" "fcbs ?s' p' = Some c2" "fd c1 = fd c2" for p p' c1 c2
  proof (cases "p = q"; cases "p' = q")
    assume "p \<noteq> q" "p' \<noteq> q"
    with that a(4) [of p c1 p' c2] show ?thesis by simp
  next
    assume "p = q" "p' \<noteq> q"
    with that assms(2) a(4) [of q c p' c2] show ?thesis by auto
  next
    assume "p \<noteq> q" "p' = q"
    with that assms(2) a(4) [of p c1 q c] show ?thesis by auto
  qed simp
  from 1 2 3 4 show ?thesis
    unfolding wf_sys_def by blast
qed

lemma wf_remove_fcb:
  assumes "wf_sys s" "fcbs s q = Some c" "set l \<subseteq> set (fcb_list s)"
  shows "wf_sys (free_fcb (sys_close (s\<lparr>fcb_list := l\<rparr>) (fd c)) q)"
proof -
  let ?s' = "free_fcb (sys_close (s\<lparr>fcb_list := l\<rparr>) (fd c)) q"
  from assms(1) have a: "\<And>p. fcbs s p \<noteq> None \<Longrightarrow> p < heap_next s"
    "\<And>p. p \<in> set (fcb_list s) \<Longrightarrow> p < heap_next s"
    "\<And>p c. fcbs s p = Some c \<Longrightarrow> files s (fd c) \<noteq> None"
    "\<And>p q c c'. fcbs s p = Some c \<Longrightarrow> fcbs s q = Some c' \<Longrightarrow> fd c = fd c' \<Longrightarrow> p = q"
    unfolding wf_sys_def by blast+
  have e: "fcbs ?s' = (fcbs s)(q := None)" "files ?s' = (files s)(fd c := None)"
    "heap_next ?s' = heap_next s" "fcb_list ?s' = l"
    by (simp_all add: free_fcb_def sys_close_def)
  have 1: "p < heap_next ?s'" if "fcbs ?s' p \<noteq> None" for p
    using that a(1) [of p] e by (auto split: if_splits)
  have 2: "p < heap_next ?s'" if "p \<in> set (fcb_list ?s')" for p
    using that a(2) [of p] assms(3) e by auto
  have 3: "files ?s' (fd c') \<noteq> None" if "fcbs ?s' p = Some c'" for p c'
  proof -
    from that e have p: "p \<noteq> q" "fcbs s p = Some c'" by (auto split: if_splits)
    with a(4) [of p c' q c] assms(2) have "fd c' \<noteq> fd c" by auto
    with a(3) [OF p(2)] e show ?thesis by simp
  qed
  have 4: "p = p'" if "fcbs ?s' p = Some c1" "fcbs ?s' p' = Some c2" "fd c1 = fd c2" for p p' c1 c2
    using that e a(4) [of p c1 p' c2] by (auto split: if_splits)
  from 1 2 3 4 show ?thesis
    unfolding wf_sys_def by blast
qed

lemma wf_append:
  assumes "wf_sys s" "q < heap_next s"
  shows "wf_sys (s\<lparr>fcb_list := fcb_list s @ [q]\<rparr>)"
  using assms unfolding wf_sys_def by auto

lemma wf_mem_free [simp]: "wf_sys (s\<lparr>mem_free := k\<rparr>) = wf_sys s"
  by (simp add: wf_sys_def)

lemma sys_pwrite_frame:
  "sys_pwrite s d' buf off = (r, s') \<Longrightarrow>
     fcbs s' = fcbs s \<and> fcb_list s' = fcb_list s \<and> heap_next s' = heap_next s
     \<and> mem_free s' = mem_free s \<and> (\<forall>d. (files s' d = None) = (files s d = None))
     \<and> (\<forall>d. d \<noteq> d' \<longrightarrow> files s' d = files s d)"
  by (auto simp: sys_pwrite_def Let_def split: option.splits if_splits)

lemma sys_fallocate_punch_frame:
  "sys_fallocate_punch s d' off len = (r, s') \<Longrightarrow>
     fcbs s' = fcbs s \<and> fcb_list s' = fcb_list s \<and> heap_next s' = heap_next s
     \<and> mem_free s' = mem_free s \<and> (\<forall>d. (files s' d = None) = (files s d = None))
     \<and> (\<forall>d. d \<noteq> d' \<longrightarrow> files s' d = files s d)"
  by (auto simp: sys_fallocate_punch_def split: option.splits if_splits)

lemma wf_ftruncate:
  assumes "wf_sys s" "sys_ftruncate s d len = (r, s')"
  shows "wf_sys s'"
  using sys_ftruncate_frame [OF assms(2)] assms(1)
  by (intro wf_files_only [of s s']) simp_all

lemma wf_pwrite:
  assumes "wf_sys s" "sys_pwrite s d buf off = (r, s')"
  shows "wf_sys s'"
  using sys_pwrite_frame [OF assms(2)] assms(1)
  by (intro wf_files_only [of s s']) simp_all

lemma wf_punch:
  assumes "wf_sys s" "sys_fallocate_punch s d off len = (r, s')"
  shows "wf_sys s'"
  using sys_fallocate_punch_frame [OF assms(2)] assms(1)
  by (intro wf_files_only [of s s']) simp_all

lemma wf_fcb_create:
  assumes "wf_sys s" "xfile_fcb_create s = (r, s')"
  shows "wf_sys s'"
  using assms(2)
proof (cases rule: xfile_fcb_create_cases)
  case (fail e)
  with assms(1) show ?thesis
    by (intro wf_files_only [of s s']) simp_all
next
  case (ok d)
  with assms(1) show ?thesis
    by (intro wf_new_fcb [of s d s' 1 empty_file]) simp_all
qed

lemma wf_irele:
  assumes "wf_sys s"
  shows "wf_sys (xfile_fcb_irele s q pos len)"
proof (cases "fcbs s q")
  case None
  with assms show ?thesis by (simp add: xfile_fcb_irele_def)
next
  case (Some c)
  let ?s1 = "s\<lparr>fcbs := (fcbs s)(q \<mapsto> c\<lparr>refcount := refcount c - 1\<rparr>)\<rparr>"
  have s1: "wf_sys ?s1"
    by (rule wf_set_refcount [OF assms Some])
  have tr: "wf_sys (snd (sys_ftruncate ?s1 (fd c) pos))"
    by (rule wf_ftruncate [OF s1, of "fd c" pos "fst (sys_ftruncate ?s1 (fd c) pos)"]) simp
  have k1: "wf_sys (free_fcb (sys_close s (fd c)) q)"
    using wf_remove_fcb [OF assms Some, of "fcb_list s"] by simp
  have k2: "wf_sys (free_fcb (sys_close (s\<lparr>fcb_list := removeAll q (fcb_list s)\<rparr>) (fd c)) q)"
    by (rule wf_remove_fcb [OF assms Some]) auto
  from Some s1 tr k1 k2 show ?thesis
    by (simp add: xfile_fcb_irele_def Let_def split: sum.splits)
qed

lemma irele_other:
  assumes "q \<noteq> p"
  shows "fcbs (xfile_fcb_irele s q pos len) p = fcbs s p"
    and "p \<notin> set (fcb_list s) \<Longrightarrow> p \<notin> set (fcb_list (xfile_fcb_irele s q pos len))"
proof -
  have "fcbs (xfile_fcb_irele s q pos len) p = fcbs s p
     \<and> set (fcb_list (xfile_fcb_irele s q pos len)) \<subseteq> set (fcb_list s)"
  proof (cases "fcbs s q")
    case None
    then show ?thesis by (simp add: xfile_fcb_irele_def)
  next
    case (Some c)
    let ?s1 = "s\<lparr>fcbs := (fcbs s)(q \<mapsto> c\<lparr>refcount := refcount c - 1\<rparr>)\<rparr>"
    have tr: "fcbs (snd (sys_ftruncate ?s1 (fd c) pos)) = fcbs ?s1"
      "fcb_list (snd (sys_ftruncate ?s1 (fd c) pos)) = fcb_list ?s1"
      using sys_ftruncate_frame [of ?s1 "fd c" pos "fst (sys_ftruncate ?s1 (fd c) pos)"
          "snd (sys_ftruncate ?s1 (fd c) pos)"]
      by simp_all
    from Some assms tr show ?thesis
      by (auto simp: xfile_fcb_irele_def Let_def free_fcb_def sys_close_def split: sum.splits)
  qed
  then show "fcbs (xfile_fcb_irele s q pos len) p = fcbs s p"
    and "p \<notin> set (fcb_list s) \<Longrightarrow> p \<notin> set (fcb_list (xfile_fcb_irele s q pos len))"
    by auto
qed

lemma wf_scan:
  assumes "wf_sys s" "fcb_scan s mb ps = (r, s')"
  shows "wf_sys s'"
proof (cases r)
  case None
  with assms show ?thesis by (auto dest: fcb_scan_None)
next
  case (Some a)
  obtain q pos where a: "a = (q, pos)" by (cases a)
  with Some assms(2) have "fcb_scan s mb ps = (Some (q, pos), s')" by simp
  from fcb_scan_Some [OF this] obtain c where c: "fcbs s q = Some c"
      "fcbs s' = (fcbs s)(q \<mapsto> c\<lparr>refcount := refcount c + 1\<rparr>)"
      "fcb_list s' = fcb_list s" "heap_next s' = heap_next s"
      "\<forall>d'. (files s' d' = None) = (files s d' = None)"
    by auto
  let ?s1 = "s\<lparr>fcbs := (fcbs s)(q \<mapsto> c\<lparr>refcount := refcount c + 1\<rparr>)\<rparr>"
  have "wf_sys ?s1"
    by (rule wf_set_refcount [OF assms(1) c(1)])
  with c show ?thesis
    by (intro wf_files_only [of ?s1 s']) simp_all
qed

text \<open>
  What \<open>xfile_fcb_find\<close> does to the pool: the invariant is kept, the block it returns
  was on the list or is the fresh address, blocks that are off the list keep their
  content and stay off the list.
\<close>

lemma find_effect:
  assumes "wf_sys s" "xfile_fcb_find s m = (r, s')"
  shows "wf_sys s'"
    and "r = Inr (q, pos) \<Longrightarrow> q \<in> set (fcb_list s) \<or> heap_next s = q"
    and "fcbs s p \<noteq> None \<Longrightarrow> p \<notin> set (fcb_list s) \<Longrightarrow>
           fcbs s' p = fcbs s p \<and> p \<notin> set (fcb_list s')"
proof -
  have "wf_sys s' \<and> (r = Inr (q, pos) \<longrightarrow> q \<in> set (fcb_list s) \<or> heap_next s = q)
      \<and> (fcbs s p \<noteq> None \<longrightarrow> p \<notin> set (fcb_list s) \<longrightarrow>
           fcbs s' p = fcbs s p \<and> p \<notin> set (fcb_list s'))"
  proof (cases "m = 0")
    case True
    obtain r1 s1 where cr: "xfile_fcb_create s = (r1, s1)"
      by (cases "xfile_fcb_create s")
    have rs: "s' = s1" "r = Inr (q, pos) \<Longrightarrow> r1 = Inr q"
      using cr True assms(2) by (cases r1; simp add: xfile_fcb_find_def)+
    from assms(1) have lt: "fcbs s p \<noteq> None \<Longrightarrow> p < heap_next s"
      by (simp add: wf_sys_def)
    from cr show ?thesis
    proof (cases rule: xfile_fcb_create_cases)
      case (fail e)
      with rs wf_fcb_create [OF assms(1) cr] show ?thesis by auto
    next
      case (ok d)
      with rs wf_fcb_create [OF assms(1) cr] lt show ?thesis by auto
    qed
  next
    case False
    let ?mb = "roundup_64 m PAGE_SIZE"
    obtain found s1 where sc: "fcb_scan s ?mb (fcb_list s) = (found, s1)"
      by (cases "fcb_scan s ?mb (fcb_list s)")
    note w1 = wf_scan [OF assms(1) sc]
    show ?thesis
    proof (cases found)
      case (Some a)
      obtain q' pos' where a: "a = (q', pos')" by (cases a)
      with Some sc False assms(2) have rs: "r = Inr (q', pos')" "s' = s1"
        by (simp_all add: xfile_fcb_find_def)
      from sc Some a have "fcb_scan s ?mb (fcb_list s) = (Some (q', pos'), s1)" by simp
      from fcb_scan_Some [OF this] obtain c where c: "q' \<in> set (fcb_list s)"
          "fcbs s1 = (fcbs s)(q' \<mapsto> c\<lparr>refcount := refcount c + 1\<rparr>)"
          "fcb_list s1 = fcb_list s"
        by auto
      with rs w1 show ?thesis by auto
    next
      case None
      with sc have s1: "s1 = s" by (auto dest: fcb_scan_None)
      obtain r2 s2 where cr: "xfile_fcb_create s = (r2, s2)"
        by (cases "xfile_fcb_create s")
      note w2 = wf_fcb_create [OF assms(1) cr]
      from assms(1) have lt: "fcbs s p \<noteq> None \<Longrightarrow> p < heap_next s"
        "\<And>x. x \<in> set (fcb_list s) \<Longrightarrow> x < heap_next s"
        by (simp_all add: wf_sys_def)
      from cr show ?thesis
      proof (cases rule: xfile_fcb_create_cases)
        case (fail e)
        with sc None s1 cr False assms(2) have "r = Inl e" "s' = s2"
          by (simp_all add: xfile_fcb_find_def)
        with fail w2 show ?thesis by simp
      next
        case (ok d)
        let ?q = "heap_next s"
        from ok have fd2: "fcb_fd s2 ?q = Inr d"
          by (simp add: fcb_fd_def)
        obtain r3 s3 where tr: "sys_ftruncate s2 d ?mb = (r3, s3)"
          by (cases "sys_ftruncate s2 d ?mb")
        note w3 = wf_ftruncate [OF w2 tr]
        note f3 = sys_ftruncate_frame [OF tr]
        show ?thesis
        proof (cases r3)
          case (Inl e)
          with sc None s1 cr ok fd2 tr False assms(2)
          have rs: "r = Inl e" "s' = xfile_fcb_irele s3 ?q 0 ?mb"
            by (simp_all add: xfile_fcb_find_def)
          have keep: "fcbs s' p = fcbs s p \<and> p \<notin> set (fcb_list s')"
            if "fcbs s p \<noteq> None" "p \<notin> set (fcb_list s)"
          proof -
            from that lt have ne: "?q \<noteq> p" by auto
            from irele_other [OF ne, of s3 0 ?mb] rs that ok f3 ne show ?thesis
              by auto
          qed
          from rs wf_irele [OF w3] keep show ?thesis by simp
        next
          case (Inr u)
          with sc None s1 cr ok fd2 tr False assms(2)
          have rs: "r = Inr (?q, 0)" "s' = s3\<lparr>fcb_list := fcb_list s3 @ [?q]\<rparr>"
            by (simp_all add: xfile_fcb_find_def)
          from ok f3 have "?q < heap_next s3" by simp
          from wf_append [OF w3 this] rs ok f3 lt show ?thesis by auto
        qed
      qed
    qed
  qed
  then show "wf_sys s'"
    and "r = Inr (q, pos) \<Longrightarrow> q \<in> set (fcb_list s) \<or> heap_next s = q"
    and "fcbs s p \<noteq> None \<Longrightarrow> p \<notin> set (fcb_list s) \<Longrightarrow>
           fcbs s' p = fcbs s p \<and> p \<notin> set (fcb_list s')"
    by blast+
qed

lemma create_effect:
  assumes "wf_sys s" "xfile_create s m = (r, s')"
  shows "wf_sys s'"
    and "r = Inr xf \<Longrightarrow> (fcb xf \<in> set (fcb_list s) \<or> heap_next s = fcb xf)
           \<and> maxbytes xf = m \<and> (m = 0 \<longrightarrow> partition_pos xf = 0 \<and> heap_next s = fcb xf)"
    and "fcbs s p \<noteq> None \<Longrightarrow> p \<notin> set (fcb_list s) \<Longrightarrow>
           fcbs s' p = fcbs s p \<and> p \<notin> set (fcb_list s')"
proof -
  have "wf_sys s' \<and> (r = Inr xf \<longrightarrow> (fcb xf \<in> set (fcb_list s) \<or> heap_next s = fcb xf)
           \<and> maxbytes xf = m \<and> (m = 0 \<longrightarrow> partition_pos xf = 0 \<and> heap_next s = fcb xf))
      \<and> (fcbs s p \<noteq> None \<longrightarrow> p \<notin> set (fcb_list s) \<longrightarrow>
           fcbs s' p = fcbs s p \<and> p \<notin> set (fcb_list s'))"
  proof (cases "mem_free s = 0")
    case True
    with assms show ?thesis
      by (auto simp: xfile_create_def kmalloc_def)
  next
    case False
    let ?s1 = "s\<lparr>mem_free := mem_free s - 1\<rparr>"
    obtain r2 s2 where f: "xfile_fcb_find ?s1 m = (r2, s2)"
      by (cases "xfile_fcb_find ?s1 m")
    from assms(1) have w1: "wf_sys ?s1" by simp
    note e = find_effect [OF w1 f]
    show ?thesis
    proof (cases r2)
      case (Inl err)
      with False f assms(2) have "r = Inl err" "s' = kfree s2"
        by (simp_all add: xfile_create_def kmalloc_def)
      with e(1) e(3) [of p] show ?thesis
        by (simp add: kfree_def)
    next
      case (Inr a)
      obtain q pos where a: "a = (q, pos)" by (cases a)
      with Inr False f assms(2)
      have rs: "r = Inr \<lparr>fcb = q, partition_pos = pos, maxbytes = m\<rparr>" "s' = s2"
        by (simp_all add: xfile_create_def kmalloc_def)
      have z: "pos = 0 \<and> heap_next s = q" if "m = 0"
      proof -
        obtain r1 s1 where cr: "xfile_fcb_create ?s1 = (r1, s1)"
          by (cases "xfile_fcb_create ?s1")
        with that f Inr a have "r1 = Inr q" "pos = 0"
          by (cases r1; simp add: xfile_fcb_find_def)+
        with cr show ?thesis
          by (cases rule: xfile_fcb_create_cases) simp_all
      qed
      from Inr a have "r2 = Inr (q, pos)" by simp
      from e(2) [OF this] e(1) e(3) [of p] rs z show ?thesis
        by auto
    qed
  qed
  then show "wf_sys s'"
    and "r = Inr xf \<Longrightarrow> (fcb xf \<in> set (fcb_list s) \<or> heap_next s = fcb xf)
           \<and> maxbytes xf = m \<and> (m = 0 \<longrightarrow> partition_pos xf = 0 \<and> heap_next s = fcb xf)"
    and "fcbs s p \<noteq> None \<Longrightarrow> p \<notin> set (fcb_list s) \<Longrightarrow>
           fcbs s' p = fcbs s p \<and> p \<notin> set (fcb_list s')"
    by blast+
qed

lemma destroy_effect:
  assumes "wf_sys s"
  shows "wf_sys (xfile_destroy s xf)"
    and "fcb xf \<noteq> p \<Longrightarrow> fcbs (xfile_destroy s xf) p = fcbs s p"
    and "fcb xf \<noteq> p \<Longrightarrow> p \<notin> set (fcb_list s) \<Longrightarrow> p \<notin> set (fcb_list (xfile_destroy s xf))"
  using wf_irele [OF assms, of "fcb xf" "partition_pos xf" "maxbytes xf"]
    irele_other [of "fcb xf" p s "partition_pos xf" "maxbytes xf"]
  by (simp_all add: xfile_destroy_def kfree_def wf_sys_def)

lemma xfile_store_fd_fail:
  "xfile_fd s xf = Inl e \<Longrightarrow> snd (xfile_store s xf buf pos) = s"
  unfolding xfile_store_def by (simp split: if_splits)

lemma xfile_store_state:
  assumes "xfile_fd s xf = Inr d'"
  shows "snd (xfile_store s xf buf pos) = s
   \<or> snd (xfile_store s xf buf pos) = snd (sys_pwrite s d' buf (pos + partition_pos xf))"
proof -
  obtain r s1 where w: "sys_pwrite s d' buf (pos + partition_pos xf) = (r, s1)"
    by (cases "sys_pwrite s d' buf (pos + partition_pos xf)")
  have "snd (xfile_store s xf buf pos) = s \<or> snd (xfile_store s xf buf pos) = s1"
    using assms w by (cases r) (simp_all add: xfile_store_def)
  then show ?thesis
    using w by simp
qed

lemma store_effect:
  assumes "wf_sys s"
  shows "wf_sys (snd (xfile_store s xf buf pos))
     \<and> fcbs (snd (xfile_store s xf buf pos)) = fcbs s
     \<and> fcb_list (snd (xfile_store s xf buf pos)) = fcb_list s"
proof (cases "xfile_fd s xf")
  case (Inl e)
  show ?thesis
    by (subst (1 2 3) xfile_store_fd_fail [OF Inl]) (simp add: assms)
next
  case (Inr d')
  let ?w = "sys_pwrite s d' buf (pos + partition_pos xf)"
  have pw: "wf_sys (snd ?w) \<and> fcbs (snd ?w) = fcbs s \<and> fcb_list (snd ?w) = fcb_list s"
    using wf_pwrite [OF assms, of d' buf "pos + partition_pos xf" "fst ?w" "snd ?w"]
      sys_pwrite_frame [of s d' buf "pos + partition_pos xf" "fst ?w" "snd ?w"]
    by simp
  from xfile_store_state [OF Inr, of buf pos] show ?thesis
  proof
    assume e: "snd (xfile_store s xf buf pos) = s"
    show ?thesis by (subst (1 2 3) e) (simp add: assms)
  next
    assume e: "snd (xfile_store s xf buf pos) = snd ?w"
    show ?thesis by (subst (1 2 3) e) (rule pw)
  qed
qed

lemma discard_effect:
  assumes "wf_sys s"
  shows "wf_sys (xfile_discard s xf pos n)
     \<and> fcbs (xfile_discard s xf pos n) = fcbs s
     \<and> fcb_list (xfile_discard s xf pos n) = fcb_list s"
proof (cases "xfile_fd s xf")
  case (Inl e)
  with assms show ?thesis by (simp add: xfile_discard_def)
next
  case (Inr d')
  let ?w = "sys_fallocate_punch s d' pos n"
  have "wf_sys (snd ?w) \<and> fcbs (snd ?w) = fcbs s \<and> fcb_list (snd ?w) = fcb_list s"
    using wf_punch [OF assms, of d' pos n "fst ?w" "snd ?w"]
      sys_fallocate_punch_frame [of s d' pos n "fst ?w" "snd ?w"]
    by simp
  with Inr show ?thesis by (simp add: xfile_discard_def)
qed

lemma run_op_effect:
  assumes "wf_sys s" "fcb_private s p d" "\<forall>xf. x = Destroy xf \<longrightarrow> fcb xf \<noteq> p"
  shows "wf_sys (snd (run_op s x)) \<and> fcb_private (snd (run_op s x)) p d
     \<and> (\<forall>xf \<in> set (fst (run_op s x)). fcb xf \<noteq> p)"
proof -
  from assms(1,2) have p: "fcbs s p \<noteq> None" "p \<notin> set (fcb_list s)" "p < heap_next s"
    by (auto simp: fcb_private_def wf_sys_def)
  show ?thesis
  proof (cases x)
    case (Create m)
    obtain r s1 where c: "xfile_create s m = (r, s1)" by (cases "xfile_create s m")
    note e = create_effect [OF assms(1) c]
    show ?thesis
    proof (cases r)
      case (Inl err)
      with Create c e(1) e(3) [OF p(1,2)] assms(2) show ?thesis
        by (simp add: fcb_private_def)
    next
      case (Inr xf)
      from e(2) [OF Inr] p have "fcb xf \<noteq> p" by auto
      with Inr Create c e(1) e(3) [OF p(1,2)] assms(2) show ?thesis
        by (simp add: fcb_private_def)
    qed
  next
    case (Destroy xf)
    with assms(3) have ne: "fcb xf \<noteq> p" by simp
    from destroy_effect(1) [OF assms(1), of xf] destroy_effect(2,3) [OF assms(1) ne]
      ne p(2) assms(2) Destroy show ?thesis
      by (simp add: fcb_private_def)
  next
    case (Store xf buf pos)
    with store_effect [OF assms(1), of xf buf pos] assms(2) show ?thesis
      by (simp add: fcb_private_def)
  next
    case (Discard xf pos n)
    with discard_effect [OF assms(1), of xf pos n] assms(2) show ?thesis
      by (simp add: fcb_private_def)
  qed
qed

lemma run_effect:
  assumes "wf_sys s" "fcb_private s p d" "\<forall>xf. Destroy xf \<in> set ops \<longrightarrow> fcb xf \<noteq> p"
  shows "wf_sys (snd (run s ops)) \<and> fcb_private (snd (run s ops)) p d
     \<and> (\<forall>xf \<in> set (fst (run s ops)). fcb xf \<noteq> p)"
  using assms
proof (induction ops arbitrary: s)
  case Nil
  then show ?case by simp
next
  case (Cons x ops)
  from Cons.prems(3) have h: "\<forall>xf. x = Destroy xf \<longrightarrow> fcb xf \<noteq> p"
    "\<forall>xf. Destroy xf \<in> set ops \<longrightarrow> fcb xf \<noteq> p"
    by auto
  note st = run_op_effect [OF Cons.prems(1,2) h(1)]
  from st have w: "wf_sys (snd (run_op s x))" and pr: "fcb_private (snd (run_op s x)) p d"
    by simp_all
  from Cons.IH [OF w pr h(2)] st show ?case
    by (auto split: prod.splits)
qed

lemma wf_sys_init: "wf_sys sys_init"
  by (simp add: wf_sys_def sys_init_def)

lemma create_private:
  assumes "wf_sys s" "xfile_create s 0 = (Inr xf, s')"
  shows "\<exists>d. files s d = None \<and> files s' d = Some empty_file \<and> fcb_private s' (fcb xf) d"
proof -
  let ?s1 = "s\<lparr>mem_free := mem_free s - 1\<rparr>"
  from assms(2) have mf: "mem_free s \<noteq> 0"
    by (auto simp: xfile_create_def kmalloc_def split: if_splits)
  obtain r1 s1 where cr: "xfile_fcb_create ?s1 = (r1, s1)"
    by (cases "xfile_fcb_create ?s1")
  from cr show ?thesis
  proof (cases rule: xfile_fcb_create_cases)
    case (fail e)
    with cr mf assms(2) show ?thesis
      by (simp add: xfile_create_def kmalloc_def xfile_fcb_find_def)
  next
    case (ok d)
    with cr mf assms(2) have rs: "fcb xf = heap_next s" "s' = s1"
      by (auto simp: xfile_create_def kmalloc_def xfile_fcb_find_def)
    from assms(1) have "heap_next s \<notin> set (fcb_list s)"
      by (auto simp: wf_sys_def)
    with ok rs have "files s d = None" "files s' d = Some empty_file" "fcb_private s' (fcb xf) d"
      by (simp_all add: fcb_private_def)
    then show ?thesis by blast
  qed
qed

lemma wf_fd_open: "wf_sys s \<Longrightarrow> fcbs s p = Some c \<Longrightarrow> files s (fd c) \<noteq> None"
  unfolding wf_sys_def by blast


subsection \<open>The pool: the reference count and the live xfiles\<close>

text \<open>What a release and an acquisition do to the control blocks and the list, exactly.\<close>

lemma irele_exact:
  assumes "fcbs s p = Some c"
  shows "p \<notin> set (fcb_list s) \<or> refcount c - 1 = 0 \<Longrightarrow>
           fcbs (xfile_fcb_irele s p pos len) = (fcbs s)(p := None)
           \<and> fcb_list (xfile_fcb_irele s p pos len) = removeAll p (fcb_list s)"
    and "p \<in> set (fcb_list s) \<Longrightarrow> refcount c - 1 \<noteq> 0 \<Longrightarrow>
           fcbs (xfile_fcb_irele s p pos len) = (fcbs s)(p \<mapsto> c\<lparr>refcount := refcount c - 1\<rparr>)
           \<and> fcb_list (xfile_fcb_irele s p pos len) = fcb_list s"
proof -
  show "fcbs (xfile_fcb_irele s p pos len) = (fcbs s)(p := None)
           \<and> fcb_list (xfile_fcb_irele s p pos len) = removeAll p (fcb_list s)"
    if "p \<notin> set (fcb_list s) \<or> refcount c - 1 = 0"
    using that assms
    by (auto simp: xfile_fcb_irele_def free_fcb_def sys_close_def)
next
  let ?s1 = "s\<lparr>fcbs := (fcbs s)(p \<mapsto> c\<lparr>refcount := refcount c - 1\<rparr>)\<rparr>"
  have tr: "fcbs (snd (sys_ftruncate ?s1 (fd c) pos)) = fcbs ?s1"
    "fcb_list (snd (sys_ftruncate ?s1 (fd c) pos)) = fcb_list ?s1"
    using sys_ftruncate_frame [of ?s1 "fd c" pos "fst (sys_ftruncate ?s1 (fd c) pos)"
        "snd (sys_ftruncate ?s1 (fd c) pos)"]
    by simp_all
  show "fcbs (xfile_fcb_irele s p pos len) = (fcbs s)(p \<mapsto> c\<lparr>refcount := refcount c - 1\<rparr>)
           \<and> fcb_list (xfile_fcb_irele s p pos len) = fcb_list s"
    if "p \<in> set (fcb_list s)" "refcount c - 1 \<noteq> 0"
    using that assms tr
    by (simp add: xfile_fcb_irele_def Let_def split: sum.splits)
qed

lemma find_exact:
  assumes "wf_sys s" "xfile_fcb_find s m = (r, s')"
  obtains (fail) e where "r = Inl e" "fcbs s' = fcbs s" "fcb_list s' = fcb_list s"
    | (join) p pos c where "m \<noteq> 0" "r = Inr (p, pos)" "p \<in> set (fcb_list s)"
        "fcbs s p = Some c" "fcbs s' = (fcbs s)(p \<mapsto> c\<lparr>refcount := refcount c + 1\<rparr>)"
        "fcb_list s' = fcb_list s"
    | (new) d where "m \<noteq> 0" "r = Inr (heap_next s, 0)"
        "fcbs s' = (fcbs s)(heap_next s \<mapsto> \<lparr>fd = d, refcount = 1\<rparr>)"
        "fcb_list s' = fcb_list s @ [heap_next s]"
    | (priv) d where "m = 0" "r = Inr (heap_next s, 0)"
        "fcbs s' = (fcbs s)(heap_next s \<mapsto> \<lparr>fd = d, refcount = 1\<rparr>)"
        "fcb_list s' = fcb_list s"
proof (cases "m = 0")
  case True
  obtain r1 s1 where cr: "xfile_fcb_create s = (r1, s1)"
    by (cases "xfile_fcb_create s")
  from cr show thesis
  proof (cases rule: xfile_fcb_create_cases)
    case (fail e)
    with cr True assms(2) have "r = Inl e" "s' = s1"
      by (simp_all add: xfile_fcb_find_def)
    with fail show thesis by (intro that(1) [of e]) simp_all
  next
    case (ok d)
    with cr True assms(2) have "r = Inr (heap_next s, 0)" "s' = s1"
      by (simp_all add: xfile_fcb_find_def)
    with ok True show thesis by (intro that(4) [of d]) simp_all
  qed
next
  case False
  let ?mb = "roundup_64 m PAGE_SIZE"
  obtain found s1 where sc: "fcb_scan s ?mb (fcb_list s) = (found, s1)"
    by (cases "fcb_scan s ?mb (fcb_list s)")
  show thesis
  proof (cases found)
    case (Some a)
    obtain p pos where a: "a = (p, pos)" by (cases a)
    with Some sc False assms(2) have rs: "r = Inr (p, pos)" "s' = s1"
      by (simp_all add: xfile_fcb_find_def)
    from sc Some a have "fcb_scan s ?mb (fcb_list s) = (Some (p, pos), s1)" by simp
    from fcb_scan_Some [OF this] obtain c where c: "p \<in> set (fcb_list s)" "fcbs s p = Some c"
        "fcbs s1 = (fcbs s)(p \<mapsto> c\<lparr>refcount := refcount c + 1\<rparr>)"
        "fcb_list s1 = fcb_list s"
      by auto
    with rs False show thesis by (intro that(2) [of p pos c]) simp_all
  next
    case None
    with sc have s1: "s1 = s" by (auto dest: fcb_scan_None)
    obtain r2 s2 where cr: "xfile_fcb_create s = (r2, s2)"
      by (cases "xfile_fcb_create s")
    from assms(1) have fresh: "fcbs s (heap_next s) = None" "heap_next s \<notin> set (fcb_list s)"
      by (auto simp: wf_sys_def)
    from cr show thesis
    proof (cases rule: xfile_fcb_create_cases)
      case (fail e)
      with sc None s1 cr False assms(2) have "r = Inl e" "s' = s2"
        by (simp_all add: xfile_fcb_find_def)
      with fail show thesis by (intro that(1) [of e]) simp_all
    next
      case (ok d)
      let ?q = "heap_next s"
      from ok have fd2: "fcb_fd s2 ?q = Inr d"
        by (simp add: fcb_fd_def)
      obtain r3 s3 where tr: "sys_ftruncate s2 d ?mb = (r3, s3)"
        by (cases "sys_ftruncate s2 d ?mb")
      note f3 = sys_ftruncate_frame [OF tr]
      show thesis
      proof (cases r3)
        case (Inl e)
        with sc None s1 cr ok fd2 tr False assms(2)
        have rs: "r = Inl e" "s' = xfile_fcb_irele s3 ?q 0 ?mb"
          by (simp_all add: xfile_fcb_find_def)
        from ok f3 have c3: "fcbs s3 ?q = Some \<lparr>fd = d, refcount = 1\<rparr>"
          "?q \<notin> set (fcb_list s3)"
          using fresh by simp_all
        from irele_exact(1) [OF c3(1), of 0 ?mb] c3(2)
        have "fcbs s' = (fcbs s3)(?q := None)" "fcb_list s' = removeAll ?q (fcb_list s3)"
          using rs by simp_all
        with ok f3 fresh have "fcbs s' = fcbs s" "fcb_list s' = fcb_list s"
          by (simp_all add: fun_upd_idem)
        with rs show thesis by (intro that(1) [of e]) simp_all
      next
        case (Inr u)
        with sc None s1 cr ok fd2 tr False assms(2)
        have rs: "r = Inr (?q, 0)" "s' = s3\<lparr>fcb_list := fcb_list s3 @ [?q]\<rparr>"
          by (simp_all add: xfile_fcb_find_def)
        with ok f3 False show thesis by (intro that(3) [of d]) simp_all
      qed
    qed
  qed
qed

lemma create_exact:
  assumes "wf_sys s" "xfile_create s m = (r, s')"
  obtains (fail) e where "r = Inl e" "fcbs s' = fcbs s" "fcb_list s' = fcb_list s"
    | (join) p pos c where "m \<noteq> 0" "r = Inr \<lparr>fcb = p, partition_pos = pos, maxbytes = m\<rparr>"
        "p \<in> set (fcb_list s)"
        "fcbs s p = Some c" "fcbs s' = (fcbs s)(p \<mapsto> c\<lparr>refcount := refcount c + 1\<rparr>)"
        "fcb_list s' = fcb_list s"
    | (new) d where "m \<noteq> 0"
        "r = Inr \<lparr>fcb = heap_next s, partition_pos = 0, maxbytes = m\<rparr>"
        "fcbs s' = (fcbs s)(heap_next s \<mapsto> \<lparr>fd = d, refcount = 1\<rparr>)"
        "fcb_list s' = fcb_list s @ [heap_next s]"
    | (priv) d where "m = 0"
        "r = Inr \<lparr>fcb = heap_next s, partition_pos = 0, maxbytes = 0\<rparr>"
        "fcbs s' = (fcbs s)(heap_next s \<mapsto> \<lparr>fd = d, refcount = 1\<rparr>)"
        "fcb_list s' = fcb_list s"
proof (cases "mem_free s = 0")
  case True
  with assms(2) have "r = Inl ENOMEM" "s' = s"
    by (simp_all add: xfile_create_def kmalloc_def)
  then show thesis by (intro that(1) [of ENOMEM]) simp_all
next
  case False
  let ?s1 = "s\<lparr>mem_free := mem_free s - 1\<rparr>"
  obtain r2 s2 where f: "xfile_fcb_find ?s1 m = (r2, s2)"
    by (cases "xfile_fcb_find ?s1 m")
  from assms(1) have w1: "wf_sys ?s1" by simp
  have res: "(\<exists>e. r2 = Inl e \<and> r = Inl e \<and> s' = kfree s2)
      \<or> (\<exists>p pos. r2 = Inr (p, pos) \<and> r = Inr \<lparr>fcb = p, partition_pos = pos, maxbytes = m\<rparr> \<and> s' = s2)"
  proof (cases r2)
    case (Inl e)
    with False f assms(2) show ?thesis
      by (simp add: xfile_create_def kmalloc_def)
  next
    case (Inr a)
    with False f assms(2) show ?thesis
      by (cases a) (simp add: xfile_create_def kmalloc_def)
  qed
  from w1 f show thesis
  proof (cases rule: find_exact)
    case (fail e)
    with res have "r = Inl e" "s' = kfree s2" by auto
    with fail show thesis by (intro that(1) [of e]) (simp_all add: kfree_def)
  next
    case (join p pos c)
    with res have "r = Inr \<lparr>fcb = p, partition_pos = pos, maxbytes = m\<rparr>" "s' = s2" by auto
    with join show thesis by (intro that(2) [of p pos c]) simp_all
  next
    case (new d)
    with res have "r = Inr \<lparr>fcb = heap_next s, partition_pos = 0, maxbytes = m\<rparr>" "s' = s2"
      by auto
    with new show thesis by (intro that(3) [of d]) simp_all
  next
    case (priv d)
    with res have "r = Inr \<lparr>fcb = heap_next s, partition_pos = 0, maxbytes = 0\<rparr>" "s' = s2"
      by auto
    with priv show thesis by (intro that(4) [of d]) simp_all
  qed
qed

text \<open>The number of live xfiles on a control block.\<close>

lemma cnt_Cons: "cnt p (xf # live) = (if fcb xf = p then Suc (cnt p live) else cnt p live)"
  by (simp add: cnt_def)

lemma cnt_pos: "(0 < cnt p live) = (\<exists>xf \<in> set live. fcb xf = p)"
  by (auto simp: cnt_def filter_empty_conv)

lemma cnt_remove1:
  "xf \<in> set live \<Longrightarrow>
     cnt p (remove1 xf live) = (if fcb xf = p then cnt p live - 1 else cnt p live)"
proof (induction live)
  case Nil
  then show ?case by simp
next
  case (Cons y live)
  show ?case
  proof (cases "y = xf")
    case True
    then show ?thesis by (simp add: cnt_def)
  next
    case False
    with Cons.prems have m: "xf \<in> set live" by simp
    then have "fcb xf = p \<Longrightarrow> 0 < cnt p live" by (auto simp: cnt_pos)
    with Cons.IH [OF m] False show ?thesis
      by (auto simp: cnt_Cons)
  qed
qed

lemma pool_invD:
  assumes "pool_inv s live"
  shows "wf_sys s" "\<And>p. (fcbs s p \<noteq> None) = (0 < cnt p live)" "\<And>p. cnt p live \<le> 2 ^ 32"
    "\<And>p. p \<in> set (fcb_list s) \<Longrightarrow> \<exists>c. fcbs s p = Some c \<and> refcount c = of_nat (cnt p live)"
    "\<And>xf. xf \<in> set live \<Longrightarrow> maxbytes xf = 0 \<Longrightarrow>
        fcb xf \<notin> set (fcb_list s) \<and> cnt (fcb xf) live = 1"
    "\<And>xf. xf \<in> set live \<Longrightarrow> maxbytes xf \<noteq> 0 \<Longrightarrow> fcb xf \<in> set (fcb_list s)"
  using assms unfolding pool_inv_def by (blast, blast, blast, blast, metis, metis)

lemma pool_invI:
  assumes "wf_sys s" "\<And>p. (fcbs s p \<noteq> None) = (0 < cnt p live)" "\<And>p. cnt p live \<le> 2 ^ 32"
    "\<And>p. p \<in> set (fcb_list s) \<Longrightarrow> \<exists>c. fcbs s p = Some c \<and> refcount c = of_nat (cnt p live)"
    "\<And>xf. xf \<in> set live \<Longrightarrow> maxbytes xf = 0 \<Longrightarrow>
        fcb xf \<notin> set (fcb_list s) \<and> cnt (fcb xf) live = 1"
    "\<And>xf. xf \<in> set live \<Longrightarrow> maxbytes xf \<noteq> 0 \<Longrightarrow> fcb xf \<in> set (fcb_list s)"
  shows "pool_inv s live"
  unfolding pool_inv_def using assms by auto

text \<open>How the invariant passes from one state to the next.\<close>

lemma in_remove1D: "y \<in> set (remove1 x xs) \<Longrightarrow> y \<in> set xs"
  by (rule ccontr) (simp add: notin_set_remove1)

lemma inv_same:
  assumes "pool_inv s live" "wf_sys s'" "fcbs s' = fcbs s" "fcb_list s' = fcb_list s"
  shows "pool_inv s' live"
  using assms unfolding pool_inv_def by simp

lemma inv_join:
  assumes inv: "pool_inv s live" and wf: "wf_sys s'"
    and p: "fcb xf \<in> set (fcb_list s)" "fcbs s (fcb xf) = Some c" "maxbytes xf \<noteq> 0"
      "cnt (fcb xf) live < 2 ^ 32"
    and s': "fcbs s' = (fcbs s)(fcb xf \<mapsto> c\<lparr>refcount := refcount c + 1\<rparr>)"
      "fcb_list s' = fcb_list s"
  shows "pool_inv s' (xf # live)"
proof (rule pool_invI)
  note d = pool_invD [OF inv]
  show "wf_sys s'" by (rule wf)
  show "(fcbs s' q \<noteq> None) = (0 < cnt q (xf # live))" for q
    using d(2) [of q] p(2) s' by (simp add: cnt_Cons)
  show "cnt q (xf # live) \<le> 2 ^ 32" for q
    using d(3) [of q] p(4) by (auto simp: cnt_Cons)
  show "\<exists>c'. fcbs s' q = Some c' \<and> refcount c' = of_nat (cnt q (xf # live))"
    if "q \<in> set (fcb_list s')" for q
  proof (cases "q = fcb xf")
    case True
    from d(4) [OF p(1)] p(2) have "refcount c = of_nat (cnt (fcb xf) live)" by simp
    with True s' show ?thesis by (simp add: cnt_Cons)
  next
    case False
    with that s' d(4) [of q] show ?thesis by (simp add: cnt_Cons)
  qed
  show "fcb y \<notin> set (fcb_list s') \<and> cnt (fcb y) (xf # live) = 1"
    if "y \<in> set (xf # live)" "maxbytes y = 0" for y
  proof -
    from that p(3) have y: "y \<in> set live" by auto
    from d(5) [OF y that(2)] p(1) have "fcb y \<noteq> fcb xf" by auto
    with d(5) [OF y that(2)] s' show ?thesis by (simp add: cnt_Cons)
  qed
  show "fcb y \<in> set (fcb_list s')" if "y \<in> set (xf # live)" "maxbytes y \<noteq> 0" for y
    using that d(6) [of y] p(1) s' by auto
qed

lemma inv_add:
  assumes inv: "pool_inv s live" and wf: "wf_sys s'"
    and q: "fcbs s (fcb xf) = None"
    and s': "fcbs s' = (fcbs s)(fcb xf \<mapsto> \<lparr>fd = d, refcount = 1\<rparr>)"
    and l: "if maxbytes xf = 0 then fcb_list s' = fcb_list s
            else fcb_list s' = fcb_list s @ [fcb xf]"
  shows "pool_inv s' (xf # live)"
proof (rule pool_invI)
  note d = pool_invD [OF inv]
  from d(2) [of "fcb xf"] q have c0: "cnt (fcb xf) live = 0" by simp
  from d(4) [of "fcb xf"] q have nl: "fcb xf \<notin> set (fcb_list s)" by auto
  from l have sub: "set (fcb_list s') \<subseteq> insert (fcb xf) (set (fcb_list s))"
    by (auto split: if_splits)
  show "wf_sys s'" by (rule wf)
  show "(fcbs s' p \<noteq> None) = (0 < cnt p (xf # live))" for p
    using d(2) [of p] s' by (simp add: cnt_Cons)
  show "cnt p (xf # live) \<le> 2 ^ 32" for p
    using d(3) [of p] c0 by (auto simp: cnt_Cons)
  show "\<exists>c'. fcbs s' p = Some c' \<and> refcount c' = of_nat (cnt p (xf # live))"
    if "p \<in> set (fcb_list s')" for p
  proof (cases "p = fcb xf")
    case True
    with s' c0 show ?thesis by (simp add: cnt_Cons)
  next
    case False
    with that sub have "p \<in> set (fcb_list s)" by auto
    with False s' d(4) [of p] show ?thesis by (simp add: cnt_Cons)
  qed
  show "fcb y \<notin> set (fcb_list s') \<and> cnt (fcb y) (xf # live) = 1"
    if "y \<in> set (xf # live)" "maxbytes y = 0" for y
  proof (cases "y = xf")
    case True
    with that l nl c0 show ?thesis by (simp add: cnt_Cons)
  next
    case False
    with that have y: "y \<in> set live" by simp
    then have "0 < cnt (fcb y) live" by (auto simp: cnt_pos)
    with c0 have "fcb y \<noteq> fcb xf" by auto
    with d(5) [OF y that(2)] sub show ?thesis by (auto simp: cnt_Cons)
  qed
  show "fcb y \<in> set (fcb_list s')" if "y \<in> set (xf # live)" "maxbytes y \<noteq> 0" for y
  proof (cases "y = xf")
    case True
    with that l show ?thesis by simp
  next
    case False
    with that have "y \<in> set live" by simp
    from d(6) [OF this that(2)] l show ?thesis by (auto split: if_splits)
  qed
qed

lemma inv_drop_block:
  assumes inv: "pool_inv s live" and wf: "wf_sys s'"
    and x: "xf \<in> set live" "cnt (fcb xf) live = 1"
    and s': "fcbs s' = (fcbs s)(fcb xf := None)"
      "fcb_list s' = removeAll (fcb xf) (fcb_list s)"
  shows "pool_inv s' (remove1 xf live)"
proof (rule pool_invI)
  note d = pool_invD [OF inv]
  note r = cnt_remove1 [OF x(1)]
  have c0: "cnt (fcb xf) (remove1 xf live) = 0"
    using r [of "fcb xf"] x(2) by simp
  have other: "fcb y \<noteq> fcb xf" if "y \<in> set (remove1 xf live)" for y
    using that c0 cnt_pos [of "fcb xf" "remove1 xf live"] by auto
  show "wf_sys s'" by (rule wf)
  show "(fcbs s' p \<noteq> None) = (0 < cnt p (remove1 xf live))" for p
    using d(2) [of p] s' r [of p] c0 by (cases "p = fcb xf") simp_all
  show "cnt p (remove1 xf live) \<le> 2 ^ 32" for p
    using d(3) [of p] r [of p] by (simp split: if_splits)
  show "\<exists>c'. fcbs s' p = Some c' \<and> refcount c' = of_nat (cnt p (remove1 xf live))"
    if "p \<in> set (fcb_list s')" for p
    using that s' d(4) [of p] r [of p] by auto
  show "fcb y \<notin> set (fcb_list s') \<and> cnt (fcb y) (remove1 xf live) = 1"
    if "y \<in> set (remove1 xf live)" "maxbytes y = 0" for y
  proof -
    from that have y: "y \<in> set live" by (auto dest: in_remove1D)
    from d(5) [OF y that(2)] other [OF that(1)] s' r [of "fcb y"] show ?thesis by auto
  qed
  show "fcb y \<in> set (fcb_list s')" if "y \<in> set (remove1 xf live)" "maxbytes y \<noteq> 0" for y
  proof -
    from that have y: "y \<in> set live" by (auto dest: in_remove1D)
    from d(6) [OF y that(2)] other [OF that(1)] s' show ?thesis by auto
  qed
qed

lemma u32_pred:
  assumes "1 < k" "k \<le> 2 ^ 32"
  shows "(of_nat k :: u32) - 1 = of_nat (k - 1)" "(of_nat k :: u32) - 1 \<noteq> 0"
proof -
  from assms show e: "(of_nat k :: u32) - 1 = of_nat (k - 1)"
    by (simp add: of_nat_diff)
  have "unat (of_nat (k - 1) :: u32) = (k - 1) mod 2 ^ LENGTH(32)"
    by (rule unat_of_nat)
  also have "\<dots> = k - 1"
    using assms by simp
  finally have "unat (of_nat (k - 1) :: u32) = k - 1" .
  with assms have "unat (of_nat (k - 1) :: u32) \<noteq> 0" by (simp del: of_nat_diff)
  then have "(of_nat (k - 1) :: u32) \<noteq> 0" by (simp only: unat_eq_zero not_False_eq_True)
  with e show "(of_nat k :: u32) - 1 \<noteq> 0" by simp
qed

lemma inv_drop_one:
  assumes inv: "pool_inv s live" and wf: "wf_sys s'"
    and x: "xf \<in> set live" "1 < cnt (fcb xf) live" "fcbs s (fcb xf) = Some c"
    and s': "fcbs s' = (fcbs s)(fcb xf \<mapsto> c\<lparr>refcount := of_nat (cnt (fcb xf) live - 1)\<rparr>)"
      "fcb_list s' = fcb_list s"
  shows "pool_inv s' (remove1 xf live)"
proof (rule pool_invI)
  note d = pool_invD [OF inv]
  note r = cnt_remove1 [OF x(1)]
  show "wf_sys s'" by (rule wf)
  show "(fcbs s' p \<noteq> None) = (0 < cnt p (remove1 xf live))" for p
    using d(2) [of p] s' r [of p] x(2) by (cases "p = fcb xf") simp_all
  show "cnt p (remove1 xf live) \<le> 2 ^ 32" for p
    using d(3) [of p] r [of p] by (simp split: if_splits)
  show "\<exists>c'. fcbs s' p = Some c' \<and> refcount c' = of_nat (cnt p (remove1 xf live))"
    if "p \<in> set (fcb_list s')" for p
    using that s' d(4) [of p] r [of p] by auto
  show "fcb y \<notin> set (fcb_list s') \<and> cnt (fcb y) (remove1 xf live) = 1"
    if "y \<in> set (remove1 xf live)" "maxbytes y = 0" for y
  proof -
    from that have y: "y \<in> set live" by (auto dest: in_remove1D)
    from d(5) [OF y that(2)] x(2) have "fcb y \<noteq> fcb xf" by auto
    with d(5) [OF y that(2)] s' r [of "fcb y"] show ?thesis by auto
  qed
  show "fcb y \<in> set (fcb_list s')" if "y \<in> set (remove1 xf live)" "maxbytes y \<noteq> 0" for y
  proof -
    from that have y: "y \<in> set live" by (auto dest: in_remove1D)
    from d(6) [OF y that(2)] s' show ?thesis by simp
  qed
qed

lemma inv_create:
  assumes inv: "pool_inv s live" and ok: "\<forall>p \<in> set (fcb_list s). cnt p live < 2 ^ 32"
    and c: "xfile_create s m = (r, s')"
  shows "pool_inv s' (case r of Inl e \<Rightarrow> live | Inr xf \<Rightarrow> xf # live)"
proof -
  note d = pool_invD [OF inv]
  note wf' = create_effect(1) [OF d(1) c]
  from d(1) have fresh: "fcbs s (heap_next s) = None"
    by (auto simp: wf_sys_def)
  from d(1) c show ?thesis
  proof (cases rule: create_exact)
    case (fail e)
    with inv_same [OF inv wf'] show ?thesis by simp
  next
    case (join p pos c)
    let ?xf = "\<lparr>fcb = p, partition_pos = pos, maxbytes = m\<rparr>"
    from join ok have "cnt (fcb ?xf) live < 2 ^ 32" by simp
    with join inv_join [OF inv wf', of ?xf c] show ?thesis by simp
  next
    case (new d')
    let ?xf = "\<lparr>fcb = heap_next s, partition_pos = 0, maxbytes = m\<rparr>"
    from new fresh inv_add [OF inv wf', of ?xf d'] show ?thesis by simp
  next
    case (priv d')
    let ?xf = "\<lparr>fcb = heap_next s, partition_pos = 0, maxbytes = 0\<rparr>"
    from priv fresh inv_add [OF inv wf', of ?xf d'] show ?thesis by simp
  qed
qed

lemma destroy_exact:
  assumes "fcbs s (fcb xf) = Some c"
  shows "fcb xf \<notin> set (fcb_list s) \<or> refcount c - 1 = 0 \<Longrightarrow>
           fcbs (xfile_destroy s xf) = (fcbs s)(fcb xf := None)
           \<and> fcb_list (xfile_destroy s xf) = removeAll (fcb xf) (fcb_list s)
           \<and> files (xfile_destroy s xf) (fd c) = None"
    and "fcb xf \<in> set (fcb_list s) \<Longrightarrow> refcount c - 1 \<noteq> 0 \<Longrightarrow>
           fcbs (xfile_destroy s xf) = (fcbs s)(fcb xf \<mapsto> c\<lparr>refcount := refcount c - 1\<rparr>)
           \<and> fcb_list (xfile_destroy s xf) = fcb_list s"
proof -
  show "fcbs (xfile_destroy s xf) = (fcbs s)(fcb xf := None)
           \<and> fcb_list (xfile_destroy s xf) = removeAll (fcb xf) (fcb_list s)
           \<and> files (xfile_destroy s xf) (fd c) = None"
    if "fcb xf \<notin> set (fcb_list s) \<or> refcount c - 1 = 0"
    using that assms
    by (auto simp: xfile_destroy_def kfree_def xfile_fcb_irele_def free_fcb_def sys_close_def)
  show "fcbs (xfile_destroy s xf) = (fcbs s)(fcb xf \<mapsto> c\<lparr>refcount := refcount c - 1\<rparr>)
           \<and> fcb_list (xfile_destroy s xf) = fcb_list s"
    if "fcb xf \<in> set (fcb_list s)" "refcount c - 1 \<noteq> 0"
    using irele_exact(2) [OF assms that, of "partition_pos xf" "maxbytes xf"]
    by (simp add: xfile_destroy_def kfree_def)
qed

lemma inv_destroy:
  assumes inv: "pool_inv s live" and x: "xf \<in> set live"
  shows "pool_inv (xfile_destroy s xf) (remove1 xf live)"
proof -
  note d = pool_invD [OF inv]
  note wf' = destroy_effect(1) [OF d(1), of xf]
  let ?p = "fcb xf" and ?k = "cnt (fcb xf) live"
  from x have pos: "0 < ?k" by (auto simp: cnt_pos)
  with d(2) [of ?p] obtain c where c: "fcbs s ?p = Some c" by auto
  show ?thesis
  proof (cases "maxbytes xf = 0")
    case True
    from d(5) [OF x True] have p: "?p \<notin> set (fcb_list s)" "?k = 1" by simp_all
    from destroy_exact(1) [OF c] p(1)
    have "fcbs (xfile_destroy s xf) = (fcbs s)(?p := None)"
      "fcb_list (xfile_destroy s xf) = removeAll ?p (fcb_list s)"
      by simp_all
    with inv_drop_block [OF inv wf' x p(2)] show ?thesis by simp
  next
    case False
    from d(6) [OF x False] have l: "?p \<in> set (fcb_list s)" .
    from d(4) [OF l] c have rc: "refcount c = of_nat ?k" by simp
    show ?thesis
    proof (cases "?k = 1")
      case True
      with rc have "refcount c - 1 = 0" by simp
      with destroy_exact(1) [OF c]
      have "fcbs (xfile_destroy s xf) = (fcbs s)(?p := None)"
        "fcb_list (xfile_destroy s xf) = removeAll ?p (fcb_list s)"
        by simp_all
      with inv_drop_block [OF inv wf' x True] show ?thesis by simp
    next
      case False
      with pos have k: "1 < ?k" by simp
      note u = u32_pred [OF k d(3) [of ?p]]
      from u rc have ne: "refcount c - 1 \<noteq> 0" and eq: "refcount c - 1 = of_nat (?k - 1)"
        by simp_all
      from destroy_exact(2) [OF c l ne] eq
      have "fcbs (xfile_destroy s xf) = (fcbs s)(?p \<mapsto> c\<lparr>refcount := of_nat (?k - 1)\<rparr>)"
        "fcb_list (xfile_destroy s xf) = fcb_list s"
        by simp_all
      with inv_drop_one [OF inv wf' x k c] show ?thesis by simp
    qed
  qed
qed

lemma inv_step:
  assumes "pool_inv s live" "op_ok s live x"
  shows "pool_inv (fst (step_live s live x)) (snd (step_live s live x))"
proof (cases x)
  case (Create m)
  obtain r s1 where c: "xfile_create s m = (r, s1)" by (cases "xfile_create s m")
  from assms Create have "\<forall>p \<in> set (fcb_list s). cnt p live < 2 ^ 32" by simp
  from inv_create [OF assms(1) this c] Create c show ?thesis
    by (cases r) simp_all
next
  case (Destroy xf)
  with assms inv_destroy [of s live xf] show ?thesis by simp
next
  case (Store xf buf pos)
  note d = pool_invD [OF assms(1)]
  from store_effect [OF d(1), of xf buf pos] inv_same [OF assms(1)] Store show ?thesis
    by simp
next
  case (Discard xf pos n)
  note d = pool_invD [OF assms(1)]
  from discard_effect [OF d(1), of xf pos n] inv_same [OF assms(1)] Discard show ?thesis
    by simp
qed

lemma inv_run:
  assumes "pool_inv s live" "client_ok s live ops"
  shows "pool_inv (fst (run_live s live ops)) (snd (run_live s live ops))"
  using assms
proof (induction ops arbitrary: s live)
  case Nil
  then show ?case by simp
next
  case (Cons x ops)
  obtain s1 live1 where st: "step_live s live x = (s1, live1)"
    by (cases "step_live s live x")
  from Cons.prems st have ok: "op_ok s live x" "client_ok s1 live1 ops" by simp_all
  from inv_step [OF Cons.prems(1) ok(1)] st have "pool_inv s1 live1" by simp
  from Cons.IH [OF this ok(2)] st show ?case by simp
qed

lemma inv_empty:
  assumes "fcbs s = Map.empty" "fcb_list s = []"
  shows "pool_inv s []"
  using assms by (simp add: pool_inv_def wf_sys_def cnt_def)

text \<open>
  What the invariant gives, for every run of a client from a state where it holds (the
  initial state, by \<open>inv_empty\<close>): every live bounded xfile is on a control block that
  is live, on the list, with its descriptor open, and whose reference count is the number
  of the live xfiles on it; a control block with no live xfile is freed and off the list;
  the release of the only live xfile of a control block destroys the control block, and
  the release of one of several leaves it shared with the count one lower.
\<close>

lemma refcount_counts_live:
  assumes "pool_inv s live" "client_ok s live ops" "run_live s live ops = (s', live')"
  shows "pool_inv s' live'"
    and "xf \<in> set live' \<Longrightarrow> maxbytes xf \<noteq> 0 \<Longrightarrow>
           \<exists>d. fcb_shared s' (fcb xf) d (of_nat (cnt (fcb xf) live'))"
    and "cnt p live' = 0 \<Longrightarrow> fcbs s' p = None \<and> p \<notin> set (fcb_list s')"
proof -
  from inv_run [OF assms(1,2)] assms(3) show inv: "pool_inv s' live'"
    by simp
  note d = pool_invD [OF inv]
  show "\<exists>d. fcb_shared s' (fcb xf) d (of_nat (cnt (fcb xf) live'))"
    if x: "xf \<in> set live'" and m: "maxbytes xf \<noteq> 0"
  proof -
    from d(6) [OF x m] have l: "fcb xf \<in> set (fcb_list s')" .
    from d(4) [OF l] obtain c where c: "fcbs s' (fcb xf) = Some c"
      and r: "refcount c = of_nat (cnt (fcb xf) live')"
      by blast
    from wf_fd_open [OF d(1) c] have "files s' (fd c) \<noteq> None" .
    with c r l have "fcb_shared s' (fcb xf) (fd c) (of_nat (cnt (fcb xf) live'))"
      by (simp add: fcb_shared_def)
    then show ?thesis ..
  qed
  show "fcbs s' p = None \<and> p \<notin> set (fcb_list s')" if z: "cnt p live' = 0"
  proof -
    from d(2) [of p] z have n: "fcbs s' p = None" by simp
    with d(4) [of p] show ?thesis by auto
  qed
qed

lemma last_release:
  assumes inv: "pool_inv s live" and x: "xf \<in> set live" and k: "cnt (fcb xf) live = 1"
    and c: "fcbs s (fcb xf) = Some c"
  shows "fcb_destroyed (xfile_destroy s xf) (fcb xf) (fd c)"
proof -
  note d = pool_invD [OF inv]
  have "fcb xf \<notin> set (fcb_list s) \<or> refcount c - 1 = 0"
  proof (cases "maxbytes xf = 0")
    case True
    with d(5) [OF x] show ?thesis by simp
  next
    case False
    from d(4) [OF d(6) [OF x False]] c k show ?thesis by simp
  qed
  from destroy_exact(1) [OF c this] show ?thesis
    by (simp add: fcb_destroyed_def)
qed

lemma early_release:
  assumes inv: "pool_inv s live" and x: "xf \<in> set live" and k: "1 < cnt (fcb xf) live"
  shows "\<exists>d. fcb_shared (xfile_destroy s xf) (fcb xf) d (of_nat (cnt (fcb xf) live - 1))"
proof -
  note inv' = inv_destroy [OF inv x]
  note d = pool_invD [OF inv']
  from k have "0 < cnt (fcb xf) (remove1 xf live)"
    by (simp add: cnt_remove1 [OF x])
  then obtain y where y: "y \<in> set (remove1 xf live)" "fcb y = fcb xf"
    by (auto simp: cnt_pos)
  from in_remove1D [OF y(1)] have yl: "y \<in> set live" .
  have "maxbytes y \<noteq> 0"
  proof
    assume "maxbytes y = 0"
    from pool_invD(5) [OF inv yl this] y(2) k show False by simp
  qed
  from d(6) [OF y(1) this] y(2) have l: "fcb xf \<in> set (fcb_list (xfile_destroy s xf))"
    by simp
  from d(4) [OF l] obtain c where c: "fcbs (xfile_destroy s xf) (fcb xf) = Some c"
    and r: "refcount c = of_nat (cnt (fcb xf) (remove1 xf live))"
    by blast
  from wf_fd_open [OF d(1) c] have "files (xfile_destroy s xf) (fd c) \<noteq> None" .
  with c r l have "fcb_shared (xfile_destroy s xf) (fcb xf) (fd c) (of_nat (cnt (fcb xf) live - 1))"
    by (simp add: fcb_shared_def cnt_remove1 [OF x])
  then show ?thesis ..
qed

text \<open>A run of creations of one page each: all of them join the first control block.\<close>

lemma sint_of_nat_off:
  assumes "r \<le> LLONG_MAX"
  shows "sint (of_nat r :: u64) = int r" "unat (of_nat r :: u64) = r"
proof -
  from assms have lt: "r < 2 ^ 63" by (simp add: LLONG_MAX_def)
  then show u: "unat (of_nat r :: u64) = r"
    by (simp add: unat_of_nat)
  then have e: "uint (of_nat r :: u64) = int r"
    by (simp only: uint_nat)
  from lt have "int r < 2 ^ 63" by simp
  then have "uint (of_nat r :: u64) < 2 ^ 63" by (simp only: e)
  with sint64_eq [of "of_nat r"] have "sint (of_nat r :: u64) = uint (of_nat r :: u64)"
    by simp
  then show "sint (of_nat r :: u64) = int r" by (simp only: e)
qed

lemma roundup_64_page:
  assumes "k * 4096 \<le> LLONG_MAX"
  shows "roundup_64 (of_nat (k * 4096)) PAGE_SIZE = of_nat (k * 4096)"
proof -
  from assms have b: "k * 4096 + 4095 < 2 ^ 64" by (simp add: LLONG_MAX_def)
  let ?x = "of_nat (k * 4096 + 4095) :: u64"
  have ux: "unat ?x = k * 4096 + 4095"
    using b by (simp only: unat_of_nat) simp
  have "unat (?x div 4096) = unat ?x div unat (4096 :: u64)"
    by (rule unat_div)
  also have "\<dots> = k"
    by (simp only: ux) simp
  finally have "unat (?x div 4096) = k" .
  moreover have "unat (of_nat k :: u64) = k"
    using b by (simp add: unat_of_nat)
  ultimately have "?x div 4096 = of_nat k"
    by (simp only: word_unat_eq_iff)
  then have "(?x div 4096) * 4096 = of_nat (k * 4096)"
    by simp
  then show ?thesis
    by (simp add: roundup_64_def PAGE_SIZE_def)
qed

lemma chain_step:
  assumes ch: "chain k s" and mf: "0 < mem_free s" and b: "(k + 1) * 4096 \<le> LLONG_MAX"
  shows "fst (xfile_create s 4096)
           = Inr \<lparr>fcb = 1, partition_pos = of_nat (k * 4096), maxbytes = 4096\<rparr>
       \<and> chain (k + 1) (snd (xfile_create s 4096))
       \<and> mem_free (snd (xfile_create s 4096)) = mem_free s - 1"
proof -
  let ?s1 = "s\<lparr>mem_free := mem_free s - 1\<rparr>"
  from ch obtain f where f: "files s 0 = Some f" "f_size f = k * 4096"
    and c: "fcbs s 1 = Some \<lparr>fd = 0, refcount = of_nat k\<rparr>" and l: "fcb_list s = [1]"
    and lim: "fsize_limit s = LLONG_MAX"
    by (auto simp: chain_def)
  from b have bk: "k * 4096 \<le> LLONG_MAX" by simp
  have r1: "roundup_64 4096 PAGE_SIZE = 4096"
    by (simp add: roundup_64_def PAGE_SIZE_def)
  have st: "sys_fstat ?s1 0 = Inr \<lparr>st_size = of_nat (k * 4096),
      st_blocks = of_nat (card (f_pages f) * (PAGE_SIZE div 512))\<rparr>"
    using f bk by (simp add: sys_fstat_def)
  have e: "(of_nat (k * 4096) :: u64) + 4096 = of_nat ((k + 1) * 4096)"
    by simp
  note so = sint_of_nat_off [OF b]
  have tr: "sys_ftruncate ?s1 0 (of_nat ((k + 1) * 4096))
      = (Inr (), ?s1\<lparr>files := (files ?s1)(0 \<mapsto> file_truncate f ((k + 1) * 4096))\<rparr>)"
    using f lim b so by (simp add: sys_ftruncate_def del: of_nat_mult of_nat_add)
  have sc: "fcb_scan ?s1 4096 [1]
      = (Some (1, of_nat (k * 4096)),
         ?s1\<lparr>files := (files ?s1)(0 \<mapsto> file_truncate f ((k + 1) * 4096)),
              fcbs := (fcbs s)(1 \<mapsto> \<lparr>fd = 0, refcount = of_nat k + 1\<rparr>)\<rparr>)"
    using c st roundup_64_page [OF bk] tr
    by (simp add: e del: of_nat_mult of_nat_add)
  have "xfile_create s 4096
      = (Inr \<lparr>fcb = 1, partition_pos = of_nat (k * 4096), maxbytes = 4096\<rparr>,
         ?s1\<lparr>files := (files ?s1)(0 \<mapsto> file_truncate f ((k + 1) * 4096)),
              fcbs := (fcbs s)(1 \<mapsto> \<lparr>fd = 0, refcount = of_nat k + 1\<rparr>)\<rparr>)"
    using mf l sc r1 by (simp add: xfile_create_def kmalloc_def xfile_fcb_find_def)
  then show ?thesis
    using l lim by (simp add: chain_def file_truncate_def)
qed

lemma chain_run:
  "chain k s \<Longrightarrow> n \<le> mem_free s \<Longrightarrow> (k + n) * 4096 \<le> LLONG_MAX \<Longrightarrow>
     fst (run s (replicate n (Create 4096)))
       = map (\<lambda>i. \<lparr>fcb = 1, partition_pos = of_nat (i * 4096), maxbytes = 4096\<rparr>) [k ..< k + n]
     \<and> chain (k + n) (snd (run s (replicate n (Create 4096))))"
proof (induction n arbitrary: k s)
  case 0
  then show ?case by simp
next
  case (Suc n)
  from Suc.prems have mf: "0 < mem_free s" and b: "(k + 1) * 4096 \<le> LLONG_MAX"
    by simp_all
  note st = chain_step [OF Suc.prems(1) mf b]
  obtain r s' where c: "xfile_create s 4096 = (r, s')"
    by (cases "xfile_create s 4096")
  with st have r: "r = Inr \<lparr>fcb = 1, partition_pos = of_nat (k * 4096), maxbytes = 4096\<rparr>"
    and ch: "chain (Suc k) s'" and m: "mem_free s' = mem_free s - 1"
    by simp_all
  from m Suc.prems have m': "n \<le> mem_free s'" by simp
  from Suc.prems have b': "(Suc k + n) * 4096 \<le> LLONG_MAX" by simp
  note ih = Suc.IH [OF ch m' b']
  let ?mk = "\<lambda>i. \<lparr>fcb = 1, partition_pos = of_nat (i * 4096), maxbytes = 4096\<rparr>"
  have u: "map ?mk [k ..< k + Suc n] = ?mk k # map ?mk [Suc k ..< Suc k + n]"
    by (simp add: upt_conv_Cons del: upt_Suc)
  obtain made s'' where rn: "run s' (replicate n (Create 4096)) = (made, s'')"
    by (cases "run s' (replicate n (Create 4096))")
  with ih have a: "made = map ?mk [Suc k ..< Suc k + n]" and c2: "chain (Suc k + n) s''"
    by simp_all
  have full: "run s (replicate (Suc n) (Create 4096)) = (?mk k # made, s'')"
    using c r rn by simp
  have e: "k + Suc n = Suc k + n" by simp
  from c2 have "chain (k + Suc n) (snd (run s (replicate (Suc n) (Create 4096))))"
    by (simp only: full snd_conv e)
  moreover have "fst (run s (replicate (Suc n) (Create 4096))) = map ?mk [k ..< k + Suc n]"
    by (simp only: full fst_conv u a)
  ultimately show ?case by (rule conjI [rotated])
qed

lemma first_create:
  "fst (xfile_create sys_big 4096) = Inr xf_a
   \<and> chain 1 (snd (xfile_create sys_big 4096))
   \<and> mem_free (snd (xfile_create sys_big 4096)) = 2 ^ 33 - 2"
  by (simp add: model_defs sys_big_def chain_def)

lemma u32_wraps: "(of_nat (UINT_MAX + 2) :: u32) = 1"
  by (simp add: UINT_MAX_def)


subsection \<open>C5: the reference count of a shared control block\<close>

text \<open>
  Claim C5. \<open>refcount\<close> is an \<open>unsigned int\<close> that \<open>xfile_fcb_find\<close> increments without
  a check. From the initial state, \<open>UINT_MAX + 2\<close> creations of one page each all succeed
  and return \<open>UINT_MAX + 2\<close> partitions of the one control block at address 1, at the
  positions \<open>0, 4096, 8192, ...\<close>; the reference count has wrapped and reads 1. The
  release of the first partition, \<open>xf_a\<close>, then takes the control block off the list,
  frees it and closes its descriptor, while \<open>UINT_MAX + 1\<close> partitions of it are live:
  the file is destroyed at the first release, not at the last.
\<close>

theorem C5_refcount_wraps:
  "fst (run sys_big (replicate (UINT_MAX + 2) (Create 4096)))
     = map (\<lambda>i. \<lparr>fcb = 1, partition_pos = of_nat (i * 4096), maxbytes = 4096\<rparr>)
         [0 ..< UINT_MAX + 2]
   \<and> fcb_shared (snd (run sys_big (replicate (UINT_MAX + 2) (Create 4096)))) 1 0 1
   \<and> fcb_destroyed
       (xfile_destroy (snd (run sys_big (replicate (UINT_MAX + 2) (Create 4096)))) xf_a) 1 0"
proof -
  define n where "n = UINT_MAX + 1"
  let ?mk = "\<lambda>i. \<lparr>fcb = 1, partition_pos = of_nat (i * 4096), maxbytes = 4096\<rparr>"
  have n2: "UINT_MAX + 2 = Suc n" by (simp add: n_def)
  obtain r1 s1 where c1: "xfile_create sys_big 4096 = (r1, s1)"
    by (cases "xfile_create sys_big 4096")
  with first_create have c: "xfile_create sys_big 4096 = (Inr xf_a, s1)"
    and ch: "chain 1 s1" and m: "mem_free s1 = 2 ^ 33 - 2"
    by simp_all
  have mf: "n \<le> mem_free s1"
    by (simp only: m) (simp add: n_def UINT_MAX_def)
  have b: "(1 + n) * 4096 \<le> LLONG_MAX"
    by (simp add: n_def UINT_MAX_def LLONG_MAX_def)
  note cr = chain_run [OF ch mf b]
  obtain made s' where rest: "run s1 (replicate n (Create 4096)) = (made, s')"
    by (cases "run s1 (replicate n (Create 4096))")
  with cr have a: "made = map ?mk [1 ..< 1 + n]" and c2: "chain (1 + n) s'"
    by simp_all
  have r: "run sys_big (replicate (Suc n) (Create 4096)) = (xf_a # made, s')"
    using c rest by simp
  have u: "map ?mk [0 ..< Suc n] = ?mk 0 # map ?mk [1 ..< 1 + n]"
    by (simp add: upt_conv_Cons del: upt_Suc)
  have x: "xf_a = ?mk 0"
    by (simp add: xf_a_def)
  have e: "(of_nat (Suc n) :: u32) = 1"
    by (simp add: n_def UINT_MAX_def)
  from c2 have "fcbs s' 1 = Some \<lparr>fd = 0, refcount = of_nat (Suc n)\<rparr>"
    and l: "fcb_list s' = [1]" and op: "files s' 0 \<noteq> None"
    by (auto simp: chain_def)
  then have "fcbs s' 1 = Some \<lparr>fd = 0, refcount = 1\<rparr>"
    by (simp only: e)
  with l op have sh: "fcb_shared s' 1 0 1"
    by (simp add: fcb_shared_def)
  have "fcb_destroyed (xfile_destroy s' xf_a) 1 0"
    using irele_shared_last [OF sh] by (simp add: xfile_destroy_def xf_a_def)
  moreover have "fst (run sys_big (replicate (Suc n) (Create 4096))) = map ?mk [0 ..< Suc n]"
    by (simp only: r fst_conv u a x)
  ultimately show ?thesis
    using sh by (simp only: n2 r snd_conv fst_conv simp_thms)
qed


subsection \<open>C6: a private partition is never shared\<close>

text \<open>
  Claim C6. In a well-formed state, \<open>xfile_create\<close> with \<open>maxbytes = 0\<close> that succeeds
  returns a partition at position 0 with no maximum (its bound is \<open>LLONG_MAX\<close>, the
  whole file) on a control block at a fresh address with a new empty file, reference
  count 1, not on \<open>fcb_list\<close>. And a control block that is private stays private, with
  its descriptor open, through every sequence of creations, destructions, stores and
  discards that does not destroy an xfile on it; no xfile created by the sequence is on
  that control block.
\<close>

theorem C6_private_partition:
  "(wf_sys s \<and> xfile_create s 0 = (Inr xf, s') \<longrightarrow>
      partition_pos xf = 0 \<and> maxbytes xf = 0 \<and> xfile_maxbytes xf = of_nat LLONG_MAX
      \<and> fcb xf = heap_next s \<and> fcbs s (fcb xf) = None \<and> wf_sys s'
      \<and> (\<exists>d. files s d = None \<and> files s' d = Some empty_file \<and> fcb_private s' (fcb xf) d))
   \<and> (wf_sys t \<and> fcb_private t p d \<and> (\<forall>xf. Destroy xf \<in> set ops \<longrightarrow> fcb xf \<noteq> p) \<longrightarrow>
      wf_sys (snd (run t ops)) \<and> fcb_private (snd (run t ops)) p d
      \<and> files (snd (run t ops)) d \<noteq> None
      \<and> (\<forall>xf \<in> set (fst (run t ops)). fcb xf \<noteq> p))"
proof -
  have p1: "partition_pos xf = 0 \<and> maxbytes xf = 0 \<and> xfile_maxbytes xf = of_nat LLONG_MAX
      \<and> fcb xf = heap_next s \<and> fcbs s (fcb xf) = None \<and> wf_sys s'
      \<and> (\<exists>d. files s d = None \<and> files s' d = Some empty_file \<and> fcb_private s' (fcb xf) d)"
    if w: "wf_sys s" and c: "xfile_create s 0 = (Inr xf, s')"
  proof -
    from create_effect(2) [OF w c refl] have x: "partition_pos xf = 0" "maxbytes xf = 0"
        "fcb xf = heap_next s"
      by simp_all
    from w have "fcbs s (heap_next s) = None"
      by (auto simp: wf_sys_def)
    with x create_effect(1) [OF w c] create_private [OF w c] show ?thesis
      by (simp add: xfile_maxbytes_def)
  qed
  have p2: "wf_sys (snd (run t ops)) \<and> fcb_private (snd (run t ops)) p d
      \<and> files (snd (run t ops)) d \<noteq> None
      \<and> (\<forall>xf \<in> set (fst (run t ops)). fcb xf \<noteq> p)"
    if w: "wf_sys t" and pr: "fcb_private t p d"
      and nd: "\<forall>xf. Destroy xf \<in> set ops \<longrightarrow> fcb xf \<noteq> p"
  proof -
    note r = run_effect [OF w pr nd]
    then have "wf_sys (snd (run t ops))"
      "fcbs (snd (run t ops)) p = Some \<lparr>fd = d, refcount = 1\<rparr>"
      by (simp_all add: fcb_private_def)
    from wf_fd_open [OF this] have "files (snd (run t ops)) d \<noteq> None"
      by simp
    with r show ?thesis by simp
  qed
  from p1 p2 show ?thesis by blast
qed

theorem C6_private_partition_witness:
  "wf_sys sys_init
   \<and> xfile_create sys_init 0 = (Inr xf_priv, snd (xfile_create sys_init 0))
   \<and> partition_pos xf_priv = 0 \<and> maxbytes xf_priv = 0
   \<and> wf_sys (snd (xfile_create sys_init 0))
   \<and> fcb_private (snd (xfile_create sys_init 0)) (fcb xf_priv) 0
   \<and> fcb_private (snd (run (snd (xfile_create sys_init 0))
        [Create 4096, Create 0, Store xf_c [1, 2] 0, Destroy xf_c])) (fcb xf_priv) 0
   \<and> map fcb (fst (run (snd (xfile_create sys_init 0))
        [Create 4096, Create 0, Store xf_c [1, 2] 0, Destroy xf_c])) = [2, 3]"
proof -
  let ?s1 = "snd (xfile_create sys_init 0)"
  let ?ops = "[Create 4096, Create 0, Store xf_c [1, 2] 0, Destroy xf_c]"
  note inst = C6_private_partition [where s = sys_init and xf = xf_priv and s' = ?s1
      and t = ?s1 and p = "fcb xf_priv" and d = 0 and ops = ?ops]
  have c: "xfile_create sys_init 0 = (Inr xf_priv, ?s1)"
    by (simp add: model_defs)
  from inst wf_sys_init c have w1: "wf_sys ?s1" and x: "partition_pos xf_priv = 0" "maxbytes xf_priv = 0"
    by blast+
  have pr: "fcb_private ?s1 (fcb xf_priv) 0"
    by (simp add: model_defs fcb_private_def)
  have nd: "\<forall>xf. Destroy xf \<in> set ?ops \<longrightarrow> fcb xf \<noteq> fcb xf_priv"
    by (simp add: xf_c_def xf_priv_def)
  from inst w1 pr nd have k: "fcb_private (snd (run ?s1 ?ops)) (fcb xf_priv) 0"
    by blast
  have made: "map fcb (fst (run ?s1 ?ops)) = [2, 3]"
    by (simp add: model_defs xf_c_def)
  from wf_sys_init c x w1 pr k made show ?thesis
    by (intro conjI)
qed

subsection \<open>The data and the holes of a file\<close>
























subsection \<open>C9: the bytes used by a partition\<close>



end
